theory Spec2Isabelle
  imports Main "HOL-Library.AList" "HOL-Library.Multiset" "HOL-Library.Word"
begin

section \<open>Data model of prepro.py\<close>

text \<open>
  The script loads a list of image records, tokenizes their captions, builds a
  vocabulary by thresholding word counts, labels every record with a split and packs the
  captions into zero-padded rows of word ids, with 1-indexed inclusive pointers from each
  image to its rows. Every exception the script can raise on that path is a value of
  \<open>error\<close>, and a function that can raise returns \<open>error + result\<close>.
\<close>

datatype error =
    UnicodeEncodeError
  | ZeroDivisionError
  | ValueError
  | KeyError string
  | AssertionError string

text \<open>
  An image record is a Python dict. \<open>captions\<close> comes from the input file; the other
  three fields are added by \<open>prepro_captions\<close>, \<open>build_vocab\<close> and
  \<open>assign_splits\<close>, each of which writes its field for every record before any
  later stage reads it.
\<close>

record img =
  captions :: "string list"
  processed_tokens :: "string list list"
  final_captions :: "string list list"
  split :: string

record params =
  word_count_threshold :: int
  num_val :: int
  num_test :: int
  max_length :: int

text \<open>
  A \<open>for\<close> loop whose body may raise: the state is threaded through the elements in
  order and the first exception ends the loop.
\<close>

fun for_each :: "('a \<Rightarrow> 's \<Rightarrow> error + 's) \<Rightarrow> 'a list \<Rightarrow> 's \<Rightarrow> error + 's" where
  "for_each body [] s = Inr s"
| "for_each body (x # xs) s =
     (case body x s of Inl e \<Rightarrow> Inl e | Inr s' \<Rightarrow> for_each body xs s')"

section \<open>prepro_captions\<close>

text \<open>
  \<open>str(s).lower().translate(None, string.punctuation).strip().split()\<close> on a Python 2
  string: \<open>str\<close> of a unicode caption with a character outside ASCII raises
  UnicodeEncodeError; \<open>lower\<close> maps A-Z to a-z; \<open>translate\<close> deletes the 32
  characters of \<open>string.punctuation\<close> (codes 33-47, 58-64, 91-96, 123-126);
  \<open>strip\<close> removes leading and trailing whitespace and \<open>split\<close> cuts at runs of
  whitespace (codes 9-13 and 32), giving no empty word.
\<close>

definition lower_char :: "char \<Rightarrow> char" where
  "lower_char c =
     (let n = (of_char c :: nat) in if 65 \<le> n \<and> n \<le> 90 then char_of (n + 32) else c)"

definition is_punctuation :: "char \<Rightarrow> bool" where
  "is_punctuation c =
     (let n = (of_char c :: nat)
      in (33 \<le> n \<and> n \<le> 47) \<or> (58 \<le> n \<and> n \<le> 64) \<or> (91 \<le> n \<and> n \<le> 96)
         \<or> (123 \<le> n \<and> n \<le> 126))"

definition is_whitespace :: "char \<Rightarrow> bool" where
  "is_whitespace c = (let n = (of_char c :: nat) in (9 \<le> n \<and> n \<le> 13) \<or> n = 32)"

definition strip :: "string \<Rightarrow> string" where
  "strip s = rev (dropWhile is_whitespace (rev (dropWhile is_whitespace s)))"

fun split_words :: "string \<Rightarrow> string \<Rightarrow> string list" where
  "split_words cur [] = (if cur = [] then [] else [cur])"
| "split_words cur (c # cs) =
     (if is_whitespace c
      then (if cur = [] then split_words [] cs else cur # split_words [] cs)
      else split_words (cur @ [c]) cs)"

definition tokenize :: "string \<Rightarrow> error + string list" where
  "tokenize s =
     (if \<exists>c \<in> set s. 128 \<le> (of_char c :: nat) then Inl UnicodeEncodeError
      else Inr (split_words [] (strip (filter (\<lambda>c. \<not> is_punctuation c) (map lower_char s)))))"

definition prepro_captions :: "img list \<Rightarrow> error + img list" where
  "prepro_captions imgs =
     for_each
       (\<lambda>img done.
          case for_each
                 (\<lambda>s toks. case tokenize s of Inl e \<Rightarrow> Inl e | Inr txt \<Rightarrow> Inr (toks @ [txt]))
                 (captions img) []
          of Inl e \<Rightarrow> Inl e
           | Inr toks \<Rightarrow> Inr (done @ [img\<lparr>processed_tokens := toks\<rparr>]))
       imgs []"

section \<open>build_vocab\<close>

text \<open>
  \<open>counts\<close> is a dict from word to number of occurrences. It is an association list
  with one entry per key; \<open>counts[w] = counts.get(w, 0) + 1\<close> replaces the entry of a
  known word and adds an entry for a new one. The order in which a Python 2 dict is
  iterated is not fixed by the script, so \<open>iteritems\<close> is a parameter of
  \<open>build_vocab\<close>: any function that returns the entries of the dict in some order.
\<close>

type_synonym counts = "(string \<times> int) list"

definition get :: "counts \<Rightarrow> string \<Rightarrow> int \<Rightarrow> int" where
  "get counts w d = (case map_of counts w of None \<Rightarrow> d | Some n \<Rightarrow> n)"

definition count_word :: "string \<Rightarrow> counts \<Rightarrow> counts" where
  "count_word w counts = AList.update w (get counts w 0 + 1) counts"

definition count_words :: "img list \<Rightarrow> counts" where
  "count_words imgs =
     fold (\<lambda>img. fold (\<lambda>txt. fold count_word txt) (processed_tokens img)) imgs []"

definition iteration_order :: "(counts \<Rightarrow> counts) \<Rightarrow> bool" where
  "iteration_order iteritems \<longleftrightarrow> (\<forall>c. mset (iteritems c) = mset c)"

text \<open>
  The statistics that \<open>build_vocab\<close> prints do not reach its result, but three of them
  can raise: the two percentages divide by \<open>len(counts)\<close> and by \<open>total_words\<close>, and
  \<open>max(sent_lengths.keys())\<close> needs at least one caption. \<open>counts[w]\<close> in
  \<open>bad_count\<close> reads a key of the dict itself. The function returns the vocabulary
  and the records with \<open>final_captions\<close> set.
\<close>

definition build_vocab ::
  "(counts \<Rightarrow> counts) \<Rightarrow> img list \<Rightarrow> int \<Rightarrow> error + (string list \<times> img list)" where
  "build_vocab iteritems imgs count_thr =
     (let counts = count_words imgs;
          total_words = sum_list (map snd counts);
          bad_words = map fst (filter (\<lambda>(w, n). n \<le> count_thr) (iteritems counts));
          vocab = map fst (filter (\<lambda>(w, n). n > count_thr) (iteritems counts));
          bad_count = sum_list (map (\<lambda>w. get counts w 0) bad_words);
          sent_lengths = map length (concat (map processed_tokens imgs))
      in if length counts = 0 then Inl ZeroDivisionError
         else if total_words = 0 then Inl ZeroDivisionError
         else if sent_lengths = [] then Inl ValueError
         else Inr (vocab @ (if bad_count > 0 then [''UNK''] else []),
                   map (\<lambda>img. img\<lparr>final_captions :=
                          map (map (\<lambda>w. if get counts w 0 > count_thr then w else ''UNK''))
                              (processed_tokens img)\<rparr>) imgs))"

section \<open>assign_splits\<close>

definition assign_splits :: "img list \<Rightarrow> int \<Rightarrow> int \<Rightarrow> img list" where
  "assign_splits imgs nval ntest =
     map (\<lambda>(i, img).
            if int i < nval then img\<lparr>split := ''val''\<rparr>
            else if int i < nval + ntest then img\<lparr>split := ''test''\<rparr>
            else img\<lparr>split := ''train''\<rparr>)
         (enumerate 0 imgs)"

section \<open>encode_captions\<close>

text \<open>
  The label arrays have dtype uint32: a cell is a 32-bit word, and storing a Python
  integer into a cell keeps its value modulo \<open>2 ^ 32\<close>. \<open>wtoi[w]\<close> raises KeyError
  for a word that is not a key. \<open>np.zeros((n, max_length))\<close> raises ValueError for a
  negative \<open>max_length\<close>, and \<open>np.concatenate\<close> raises ValueError for an empty list
  of arrays. The arrays \<open>label_start_ix\<close>, \<open>label_end_ix\<close> and \<open>label_length\<close>
  are allocated with \<open>N\<close> and \<open>M\<close> cells, so every index the loops write is in range.
\<close>

type_synonym uint32 = "32 word"

record enc_state =
  label_arrays :: "uint32 list list list"
  label_start_ix :: "uint32 list"
  label_end_ix :: "uint32 list"
  label_length :: "uint32 list"
  caption_counter :: nat
  counter :: nat

definition token_step ::
  "int \<Rightarrow> (string \<rightharpoonup> nat) \<Rightarrow> nat \<Rightarrow> nat \<times> string \<Rightarrow> uint32 list list \<Rightarrow> error + uint32 list list"
  where
  "token_step maxlen wtoi j kw Li =
     (case kw of (k, w) \<Rightarrow>
        if int k < maxlen
        then (case wtoi w of
                None \<Rightarrow> Inl (KeyError w)
              | Some ix \<Rightarrow> Inr (Li[j := (Li ! j)[k := of_nat ix]]))
        else Inr Li)"

definition caption_step ::
  "int \<Rightarrow> (string \<rightharpoonup> nat) \<Rightarrow> nat \<times> string list
     \<Rightarrow> uint32 list \<times> nat \<times> uint32 list list
     \<Rightarrow> error + (uint32 list \<times> nat \<times> uint32 list list)" where
  "caption_step maxlen wtoi js st =
     (case (js, st) of ((j, s), (lens, cc, Li)) \<Rightarrow>
        (case for_each (token_step maxlen wtoi j) (enumerate 0 s) Li of
           Inl e \<Rightarrow> Inl e
         | Inr Li' \<Rightarrow> Inr (lens[cc := word_of_int (min maxlen (int (length s)))], Suc cc, Li')))"

definition img_step ::
  "int \<Rightarrow> (string \<rightharpoonup> nat) \<Rightarrow> nat \<times> img \<Rightarrow> enc_state \<Rightarrow> error + enc_state" where
  "img_step maxlen wtoi iimg st =
     (case iimg of (i, img) \<Rightarrow>
        let n = length (final_captions img) in
        if \<not> n > 0 then Inl (AssertionError ''error: some image has no captions'')
        else if maxlen < 0 then Inl ValueError
        else
          (case for_each (caption_step maxlen wtoi) (enumerate 0 (final_captions img))
                  (label_length st, caption_counter st,
                   replicate n (replicate (nat maxlen) 0))
           of Inl e \<Rightarrow> Inl e
            | Inr (lens, cc, Li) \<Rightarrow>
                Inr (st\<lparr>label_arrays := label_arrays st @ [Li],
                        label_start_ix := (label_start_ix st)[i := of_nat (counter st)],
                        label_end_ix := (label_end_ix st)[i := of_nat (counter st + n - 1)],
                        label_length := lens,
                        caption_counter := cc,
                        counter := counter st + n\<rparr>)))"

definition encode_loop :: "img list \<Rightarrow> int \<Rightarrow> (string \<rightharpoonup> nat) \<Rightarrow> error + enc_state" where
  "encode_loop imgs maxlen wtoi =
     (let N = length imgs;
          M = sum_list (map (\<lambda>img. length (final_captions img)) imgs)
      in for_each (img_step maxlen wtoi) (enumerate 0 imgs)
           \<lparr>label_arrays = [],
            label_start_ix = replicate N 0,
            label_end_ix = replicate N 0,
            label_length = replicate M 0,
            caption_counter = 0,
            counter = 1\<rparr>)"

definition encode_captions ::
  "img list \<Rightarrow> int \<Rightarrow> (string \<rightharpoonup> nat)
     \<Rightarrow> error + (uint32 list list \<times> uint32 list \<times> uint32 list \<times> uint32 list)" where
  "encode_captions imgs maxlen wtoi =
     (let M = sum_list (map (\<lambda>img. length (final_captions img)) imgs)
      in case encode_loop imgs maxlen wtoi of
           Inl e \<Rightarrow> Inl e
         | Inr st \<Rightarrow>
             if label_arrays st = [] then Inl ValueError
             else
               let L = concat (label_arrays st) in
               if length L \<noteq> M then Inl (AssertionError ''lengths don't match? that's weird'')
               else if \<not> (\<forall>l \<in> set (label_length st). 0 < l)
               then Inl (AssertionError ''error: some caption had no words?'')
               else Inr (L, label_start_ix st, label_end_ix st, label_length st))"

section \<open>main\<close>

text \<open>
  The two translation tables are dict comprehensions over \<open>enumerate(vocab)\<close>. The keys
  \<open>i + 1\<close> of \<open>itow\<close> are pairwise different, so that dict is the list of its items;
  in \<open>wtoi\<close> a word that occurs twice in the list keeps the id of its last position.
\<close>

definition make_itow :: "string list \<Rightarrow> (nat \<times> string) list" where
  "make_itow vocab = map (\<lambda>(i, w). (i + 1, w)) (enumerate 0 vocab)"

definition make_wtoi :: "string list \<Rightarrow> (string \<rightharpoonup> nat)" where
  "make_wtoi vocab = fold (\<lambda>(i, w) m. m(w \<mapsto> i + 1)) (enumerate 0 vocab) Map.empty"

text \<open>
  \<open>main\<close> up to the point where the arrays and the tables are handed to the h5 and json
  writers. \<open>shuffle\<close> stands for \<open>random.shuffle\<close> after \<open>seed(123)\<close>. The result
  holds what is written: \<open>ix_to_word\<close>, the split of every record, and the four label
  arrays.
\<close>

record out =
  ix_to_word :: "(nat \<times> string) list"
  images :: "string list"
  labels :: "uint32 list list"
  out_label_start_ix :: "uint32 list"
  out_label_end_ix :: "uint32 list"
  out_label_length :: "uint32 list"

definition main ::
  "(img list \<Rightarrow> img list) \<Rightarrow> (counts \<Rightarrow> counts) \<Rightarrow> img list \<Rightarrow> params \<Rightarrow> error + out" where
  "main shuffle iteritems input p =
     (case prepro_captions (shuffle input) of
        Inl e \<Rightarrow> Inl e
      | Inr imgs1 \<Rightarrow>
          (case build_vocab iteritems imgs1 (word_count_threshold p) of
             Inl e \<Rightarrow> Inl e
           | Inr (vocab, imgs2) \<Rightarrow>
               let itow = make_itow vocab;
                   wtoi = make_wtoi vocab;
                   imgs3 = assign_splits imgs2 (num_val p) (num_test p)
               in (case encode_captions imgs3 (max_length p) wtoi of
                     Inl e \<Rightarrow> Inl e
                   | Inr (L, start_ix, end_ix, lens) \<Rightarrow>
                       Inr \<lparr>ix_to_word = itow,
                            images = map split imgs3,
                            labels = L,
                            out_label_start_ix = start_ix,
                            out_label_end_ix = end_ix,
                            out_label_length = lens\<rparr>)))"

section \<open>Counts in the words of the specification\<close>

definition all_tokens :: "img list \<Rightarrow> string list" where
  "all_tokens imgs = concat (concat (map processed_tokens imgs))"

definition corpus_count :: "img list \<Rightarrow> string \<Rightarrow> int" where
  "corpus_count imgs w = int (count_list (all_tokens imgs) w)"

text \<open>
  The final form of a token: itself when its count in the whole corpus exceeds the
  threshold, the sentinel otherwise.
\<close>

definition substitute :: "img list \<Rightarrow> int \<Rightarrow> string \<Rightarrow> string" where
  "substitute imgs t w = (if t < corpus_count imgs w then w else ''UNK'')"

section \<open>The encoded arrays in closed form\<close>

text \<open>
  What the loops of \<open>encode_captions\<close> compute, written without state. A cell of a row
  holds the id of the word stored modulo \<open>2 ^ 32\<close>; a row holds the ids of the first
  \<open>max_length\<close> tokens and zeros after them; the recorded length is
  \<open>min(max_length, len(s))\<close> as stored.
\<close>

definition word_id :: "(string \<rightharpoonup> nat) \<Rightarrow> string \<Rightarrow> uint32" where
  "word_id wtoi w = (case wtoi w of None \<Rightarrow> 0 | Some ix \<Rightarrow> of_nat ix)"

definition encode_row :: "int \<Rightarrow> (string \<rightharpoonup> nat) \<Rightarrow> string list \<Rightarrow> uint32 list" where
  "encode_row maxlen wtoi s =
     map (word_id wtoi) (take (nat maxlen) s) @ replicate (nat maxlen - length s) 0"

definition row_length :: "int \<Rightarrow> string list \<Rightarrow> uint32" where
  "row_length maxlen s = word_of_int (min maxlen (int (length s)))"

text \<open>
  The running counter: a record with \<open>n\<close> captions gets \<open>start = counter\<close> and
  \<open>end = counter + n - 1\<close>, and then \<open>counter += n\<close>.
\<close>

fun span_starts :: "nat \<Rightarrow> nat list \<Rightarrow> nat list" where
  "span_starts c [] = []"
| "span_starts c (n # ns) = c # span_starts (c + n) ns"

fun span_ends :: "nat \<Rightarrow> nat list \<Rightarrow> nat list" where
  "span_ends c [] = []"
| "span_ends c (n # ns) = (c + n - 1) # span_ends (c + n) ns"

definition all_captions :: "img list \<Rightarrow> string list list" where
  "all_captions imgs = concat (map final_captions imgs)"

definition caption_counts :: "img list \<Rightarrow> nat list" where
  "caption_counts imgs = map (\<lambda>img. length (final_captions img)) imgs"

text \<open>
  The label that \<open>assign_splits\<close> gives to the record at position \<open>i\<close>.
\<close>

definition split_at :: "int \<Rightarrow> int \<Rightarrow> nat \<Rightarrow> string" where
  "split_at nval ntest i =
     (if int i < nval then ''val'' else if int i < nval + ntest then ''test'' else ''train'')"

section \<open>Example corpora\<close>

text \<open>
  The corpus of two images and three captions of the specification, after
  \<open>prepro_captions\<close>, and the same corpus after \<open>build_vocab\<close> with threshold 1.
\<close>

definition example_tokens :: "img list" where
  "example_tokens =
     [\<lparr>captions = [''A Dog!'', ''Two dogs run.''],
       processed_tokens = [[''a'', ''dog''], [''two'', ''dogs'', ''run'']],
       final_captions = [], split = []\<rparr>,
      \<lparr>captions = [''A cat.''],
       processed_tokens = [[''a'', ''cat'']],
       final_captions = [], split = []\<rparr>]"

definition example_final :: "img list" where
  "example_final =
     [\<lparr>captions = [''A Dog!'', ''Two dogs run.''],
       processed_tokens = [[''a'', ''dog''], [''two'', ''dogs'', ''run'']],
       final_captions = [[''a'', ''UNK''], [''UNK'', ''UNK'', ''UNK'']], split = []\<rparr>,
      \<lparr>captions = [''A cat.''],
       processed_tokens = [[''a'', ''cat'']],
       final_captions = [[''a'', ''UNK'']], split = []\<rparr>]"


text \<open>
  A corpus whose second record has no captions, and a corpus with a caption without words.
\<close>

definition example_no_captions :: "img list" where
  "example_no_captions =
     [\<lparr>captions = [], processed_tokens = [], final_captions = [[''a'']], split = []\<rparr>,
      \<lparr>captions = [], processed_tokens = [], final_captions = [], split = []\<rparr>]"

definition example_no_words :: "img list" where
  "example_no_words =
     [\<lparr>captions = [], processed_tokens = [], final_captions = [[''a''], []], split = []\<rparr>]"

text \<open>
  An input file with one record and a configuration that asks for one validation and one
  test record.
\<close>

definition example_input :: "img list" where
  "example_input =
     [\<lparr>captions = [''A cat.''], processed_tokens = [], final_captions = [], split = []\<rparr>]"

definition example_params :: params where
  "example_params = \<lparr>word_count_threshold = 0, num_val = 1, num_test = 1, max_length = 4\<rparr>"

text \<open>
  A corpus whose only caption consists of punctuation, before and after
  \<open>prepro_captions\<close>, and a configuration with no validation and no test records.
\<close>

definition example_punct :: "img list" where
  "example_punct =
     [\<lparr>captions = [''!!!''], processed_tokens = [], final_captions = [], split = []\<rparr>]"

definition example_blank :: "img list" where
  "example_blank =
     [\<lparr>captions = [''!!!''], processed_tokens = [[]], final_captions = [], split = []\<rparr>]"


section \<open>Word counts\<close>

text \<open>
  The dict built by the three nested loops has one entry for every word of the corpus,
  holding the number of occurrences of the word in all captions of all records.
\<close>

lemma fold_concat_eq: "fold f (concat xss) s = fold (fold f) xss s"
  by (induction xss arbitrary: s) simp_all

lemma count_words_all_tokens: "count_words imgs = fold count_word (all_tokens imgs) []"
proof -
  have "fold (\<lambda>img. fold (\<lambda>txt. fold count_word txt) (processed_tokens img)) imgs c
        = fold count_word (concat (concat (map processed_tokens imgs))) c" for c
    by (induction imgs arbitrary: c) (simp_all add: fold_concat_eq)
  then show ?thesis by (simp add: count_words_def all_tokens_def)
qed

lemma get_count_word: "get (count_word w c) v 0 = get c v 0 + (if v = w then 1 else 0)"
  by (simp add: get_def count_word_def update_conv' split: option.splits)

lemma get_fold_count_word:
  "get (fold count_word ws c) v 0 = get c v 0 + int (count_list ws v)"
  by (induction ws arbitrary: c) (simp_all add: get_count_word)

lemma keys_fold_count_word:
  "fst ` set (fold count_word ws c) = fst ` set c \<union> set ws"
  by (induction ws arbitrary: c) (auto simp: count_word_def dom_update)

lemma distinct_fold_count_word:
  "distinct (map fst c) \<Longrightarrow> distinct (map fst (fold count_word ws c))"
  by (induction ws arbitrary: c) (simp_all add: count_word_def distinct_update)

lemma get_Nil: "get [] w d = d"
  by (simp add: get_def)

lemma get_count_words: "get (count_words imgs) w 0 = corpus_count imgs w"
  by (simp add: count_words_all_tokens get_fold_count_word corpus_count_def get_Nil)

lemma keys_count_words: "fst ` set (count_words imgs) = set (all_tokens imgs)"
  by (simp add: count_words_all_tokens keys_fold_count_word)

lemma distinct_count_words: "distinct (map fst (count_words imgs))"
  by (simp add: count_words_all_tokens distinct_fold_count_word)

lemma entry_count_words:
  "(w, n) \<in> set (count_words imgs) \<longleftrightarrow> w \<in> set (all_tokens imgs) \<and> n = corpus_count imgs w"
proof
  assume h: "(w, n) \<in> set (count_words imgs)"
  then have "map_of (count_words imgs) w = Some n"
    using distinct_count_words by simp
  then have "get (count_words imgs) w 0 = n" by (simp add: get_def)
  moreover have "w \<in> fst ` set (count_words imgs)" using h by force
  ultimately show "w \<in> set (all_tokens imgs) \<and> n = corpus_count imgs w"
    by (simp add: get_count_words keys_count_words)
next
  assume h: "w \<in> set (all_tokens imgs) \<and> n = corpus_count imgs w"
  then have "w \<in> fst ` set (count_words imgs)" by (simp add: keys_count_words)
  then obtain m where m: "(w, m) \<in> set (count_words imgs)" by force
  then have "map_of (count_words imgs) w = Some m"
    using distinct_count_words by simp
  then have "get (count_words imgs) w 0 = m" by (simp add: get_def)
  then show "(w, n) \<in> set (count_words imgs)" using m h by (simp add: get_count_words)
qed

lemma corpus_count_pos: "w \<in> set (all_tokens imgs) \<longleftrightarrow> 0 < corpus_count imgs w"
  using count_list_0_iff [of "all_tokens imgs" w] by (auto simp: corpus_count_def)

lemma sum_list_pos_iff:
  "(\<And>x. x \<in> set xs \<Longrightarrow> 1 \<le> f x) \<Longrightarrow> 0 < sum_list (map f xs) \<longleftrightarrow> xs \<noteq> []" for f :: "'a \<Rightarrow> int"
proof (induction xs)
  case Nil
  then show ?case by simp
next
  case (Cons x xs)
  have "0 \<le> sum_list (map f xs)"
    by (rule sum_list_nonneg) (use Cons.prems in force)
  moreover have "1 \<le> f x" using Cons.prems by simp
  ultimately show ?case by simp
qed

lemma count_words_Nil_iff: "count_words imgs = [] \<longleftrightarrow> all_tokens imgs = []"
  using keys_count_words [of imgs] by (metis image_is_empty set_empty)

lemma total_words_pos:
  assumes "all_tokens imgs \<noteq> []"
  shows "0 < sum_list (map snd (count_words imgs))"
proof -
  have "1 \<le> snd x" if "x \<in> set (count_words imgs)" for x
  proof -
    obtain w n where x: "x = (w, n)" by (cases x)
    with that have "n = corpus_count imgs w" "0 < corpus_count imgs w"
      by (simp_all add: entry_count_words corpus_count_pos)
    then show ?thesis using x by simp
  qed
  then have "0 < sum_list (map snd (count_words imgs)) \<longleftrightarrow> count_words imgs \<noteq> []"
    by (rule sum_list_pos_iff)
  then show ?thesis using assms by (simp add: count_words_Nil_iff)
qed

lemma sentences_nonempty:
  "all_tokens imgs \<noteq> [] \<Longrightarrow> concat (map processed_tokens imgs) \<noteq> []"
  by (force simp: all_tokens_def)

lemma set_iteritems: "iteration_order it \<Longrightarrow> set (it c) = set c"
  unfolding iteration_order_def by (metis set_mset_mset)

lemma bad_count_pos:
  assumes "iteration_order it"
  shows "0 < sum_list (map (\<lambda>w. get (count_words imgs) w 0)
               (map fst (filter (\<lambda>(w, n). n \<le> t) (it (count_words imgs)))))
         \<longleftrightarrow> (\<exists>w \<in> set (all_tokens imgs). corpus_count imgs w \<le> t)"
proof -
  let ?bad = "map fst (filter (\<lambda>(w, n). n \<le> t) (it (count_words imgs)))"
  have set_bad: "set ?bad = {w \<in> set (all_tokens imgs). corpus_count imgs w \<le> t}"
    using set_iteritems [OF assms, of "count_words imgs"]
    by (auto simp: entry_count_words image_iff)
  have "1 \<le> get (count_words imgs) w 0" if "w \<in> set ?bad" for w
    using that unfolding set_bad by (simp add: get_count_words corpus_count_pos)
  then have "0 < sum_list (map (\<lambda>w. get (count_words imgs) w 0) ?bad) \<longleftrightarrow> ?bad \<noteq> []"
    by (rule sum_list_pos_iff)
  also have "\<dots> \<longleftrightarrow> set ?bad \<noteq> {}" by (simp only: set_empty)
  also have "\<dots> \<longleftrightarrow> (\<exists>w \<in> set (all_tokens imgs). corpus_count imgs w \<le> t)"
    unfolding set_bad by auto
  finally show ?thesis .
qed

lemma build_vocab_result:
  assumes "iteration_order it"
  shows "build_vocab it imgs t =
    (if all_tokens imgs = [] then Inl ZeroDivisionError
     else Inr (map fst (filter (\<lambda>(w, n). t < n) (it (count_words imgs)))
                 @ (if \<exists>w \<in> set (all_tokens imgs). corpus_count imgs w \<le> t then [''UNK''] else []),
               map (\<lambda>img. img\<lparr>final_captions :=
                      map (map (substitute imgs t)) (processed_tokens img)\<rparr>) imgs))"
proof (cases "all_tokens imgs = []")
  case True
  then show ?thesis by (simp add: build_vocab_def Let_def count_words_Nil_iff)
next
  case False
  have sub: "(\<lambda>w. if t < get (count_words imgs) w 0 then w else ''UNK'') = substitute imgs t"
    by (rule ext) (simp add: substitute_def get_count_words)
  show ?thesis
    using False total_words_pos [OF False] sentences_nonempty [OF False]
    unfolding build_vocab_def Let_def bad_count_pos [OF assms] sub
    by (simp add: count_words_Nil_iff)
qed

lemma kept_words:
  assumes "iteration_order it"
  shows "set (map fst (filter (\<lambda>(w, n). t < n) (it (count_words imgs))))
           = {w \<in> set (all_tokens imgs). t < corpus_count imgs w}"
    and "distinct (map fst (filter (\<lambda>(w, n). t < n) (it (count_words imgs))))"
proof -
  show "set (map fst (filter (\<lambda>(w, n). t < n) (it (count_words imgs))))
           = {w \<in> set (all_tokens imgs). t < corpus_count imgs w}"
    using set_iteritems [OF assms, of "count_words imgs"]
    by (auto simp: entry_count_words image_iff)
  have "mset (map fst (it (count_words imgs))) = mset (map fst (count_words imgs))"
    using assms by (simp add: iteration_order_def)
  then have "distinct (map fst (it (count_words imgs)))"
    using distinct_count_words [of imgs] by (metis mset_eq_imp_distinct_iff)
  then show "distinct (map fst (filter (\<lambda>(w, n). t < n) (it (count_words imgs))))"
    by (rule distinct_map_filter)
qed
section \<open>The vocabulary and the final captions\<close>

text \<open>
  Claim C1 says "for every corpus". On a corpus without tokens \<open>build_vocab\<close> builds no
  vocabulary: \<open>counts\<close> is empty and the first percentage it prints divides by
  \<open>len(counts)\<close>.
\<close>

theorem build_vocab_empty_corpus_counterexample:
  "build_vocab id [] 0 = Inl ZeroDivisionError"
  by (simp add: build_vocab_def count_words_def)

text \<open>
  Claim C1 as amended. For a corpus with at least one token and a threshold
  \<open>t \<ge> 0\<close>, \<open>build_vocab\<close> returns: the vocabulary is a duplicate-free list of
  exactly the words whose count in the whole corpus is greater than \<open>t\<close>, followed by
  \<open>UNK\<close> if and only if some word of the corpus has a count of at most \<open>t\<close>; and
  every position of every caption that holds such a word holds \<open>UNK\<close> in the final
  captions.
\<close>

theorem build_vocab_threshold:
  assumes "iteration_order iteritems" and "0 \<le> t" and "all_tokens imgs \<noteq> []"
  shows "\<exists>vocab imgs'. build_vocab iteritems imgs t = Inr (vocab, imgs')
         \<and> (\<exists>kept. vocab = kept @ (if \<exists>w \<in> set (all_tokens imgs). corpus_count imgs w \<le> t
                                    then [''UNK''] else [])
               \<and> distinct kept \<and> set kept = {w. t < corpus_count imgs w})
         \<and> length imgs' = length imgs
         \<and> (\<forall>i < length imgs. \<forall>j < length (processed_tokens (imgs ! i)).
              \<forall>k < length (processed_tokens (imgs ! i) ! j).
                corpus_count imgs (processed_tokens (imgs ! i) ! j ! k) \<le> t
                \<longrightarrow> final_captions (imgs' ! i) ! j ! k = ''UNK'')"
proof -
  let ?kept = "map fst (filter (\<lambda>(w, n). t < n) (iteritems (count_words imgs)))"
  let ?vocab = "?kept @ (if \<exists>w \<in> set (all_tokens imgs). corpus_count imgs w \<le> t
                         then [''UNK''] else [])"
  let ?imgs' = "map (\<lambda>img. img\<lparr>final_captions :=
                      map (map (substitute imgs t)) (processed_tokens img)\<rparr>) imgs"
  have ret: "build_vocab iteritems imgs t = Inr (?vocab, ?imgs')"
    using assms(3) by (simp add: build_vocab_result [OF assms(1)])
  have "{w \<in> set (all_tokens imgs). t < corpus_count imgs w} = {w. t < corpus_count imgs w}"
    using \<open>0 \<le> t\<close> by (auto simp: corpus_count_pos)
  then have "set ?kept = {w. t < corpus_count imgs w}" "distinct ?kept"
    using kept_words [OF assms(1), of t imgs] by simp_all
  then have a: "\<exists>kept. ?vocab = kept @ (if \<exists>w \<in> set (all_tokens imgs). corpus_count imgs w \<le> t
                                    then [''UNK''] else [])
               \<and> distinct kept \<and> set kept = {w. t < corpus_count imgs w}"
    by blast
  have b: "length ?imgs' = length imgs" by simp
  have c: "\<forall>i < length imgs. \<forall>j < length (processed_tokens (imgs ! i)).
              \<forall>k < length (processed_tokens (imgs ! i) ! j).
                corpus_count imgs (processed_tokens (imgs ! i) ! j ! k) \<le> t
                \<longrightarrow> final_captions (?imgs' ! i) ! j ! k = ''UNK''"
    by (simp add: substitute_def)
  from ret a b c show ?thesis by blast
qed

theorem build_vocab_threshold_witness:
  "iteration_order id \<and> (0::int) \<le> 1 \<and> all_tokens example_tokens \<noteq> []
   \<and> build_vocab id example_tokens 1 = Inr ([''a'', ''UNK''], example_final)
   \<and> (\<exists>kept. [''a'', ''UNK''] = kept @ [''UNK''] \<and> distinct kept
         \<and> set kept = {w. 1 < corpus_count example_tokens w})
   \<and> corpus_count example_tokens ''dog'' \<le> 1
   \<and> final_captions (example_final ! 0) ! 0 ! 1 = ''UNK''"
proof -
  have h1: "iteration_order id" by (simp add: iteration_order_def)
  have h2: "(0::int) \<le> 1" by simp
  have h3: "all_tokens example_tokens \<noteq> []"
    by (simp add: all_tokens_def example_tokens_def)
  have ev: "build_vocab id example_tokens 1 = Inr ([''a'', ''UNK''], example_final)"
    by (simp add: build_vocab_def example_tokens_def example_final_def count_words_def
        count_word_def get_def)
  have c: "corpus_count example_tokens ''dog'' \<le> 1"
    by (simp add: corpus_count_def all_tokens_def example_tokens_def)
  have d: "\<exists>w \<in> set (all_tokens example_tokens). corpus_count example_tokens w \<le> 1"
    using c by (auto simp: all_tokens_def example_tokens_def)
  have i: "(0::nat) < length example_tokens"
     "(0::nat) < length (processed_tokens (example_tokens ! 0))"
     "(1::nat) < length (processed_tokens (example_tokens ! 0) ! 0)"
     "processed_tokens (example_tokens ! 0) ! 0 ! 1 = ''dog''"
    by (simp_all add: example_tokens_def)
  from build_vocab_threshold [OF h1 h2 h3] d i c h1 h2 h3 ev show ?thesis
    by (simp del: One_nat_def)
qed

text \<open>
  Claim C4 speaks of every record and every caption. A corpus whose only caption is "!!!"
  has no token after \<open>prepro_captions\<close>, and it gets no final captions:
  \<open>build_vocab\<close> raises before it writes them.
\<close>

theorem build_vocab_blank_caption_counterexample:
  "prepro_captions example_punct = Inr example_blank
   \<and> build_vocab id example_blank 0 = Inl ZeroDivisionError"
proof -
  have "prepro_captions example_punct = Inr example_blank"
    by code_simp
  moreover have "build_vocab id example_blank 0 = Inl ZeroDivisionError"
    by (simp add: build_vocab_def count_words_def example_blank_def)
  ultimately show ?thesis by blast
qed

text \<open>
  Claim C4 as amended. For a corpus with at least one token, \<open>build_vocab\<close> returns; the
  final captions of a record are as many as its tokenized captions, each final caption is
  as long as the tokenized one, and position by position it holds the original token if
  the count of that token in the whole corpus exceeds the threshold and \<open>UNK\<close>
  otherwise.
\<close>

theorem build_vocab_final_captions:
  assumes "iteration_order iteritems" and "all_tokens imgs \<noteq> []"
  shows "\<exists>vocab imgs'. build_vocab iteritems imgs t = Inr (vocab, imgs')
         \<and> length imgs' = length imgs
         \<and> (\<forall>i < length imgs.
              processed_tokens (imgs' ! i) = processed_tokens (imgs ! i)
              \<and> length (final_captions (imgs' ! i)) = length (processed_tokens (imgs ! i))
              \<and> (\<forall>j < length (processed_tokens (imgs ! i)).
                   length (final_captions (imgs' ! i) ! j) = length (processed_tokens (imgs ! i) ! j)
                   \<and> (\<forall>k < length (processed_tokens (imgs ! i) ! j).
                        final_captions (imgs' ! i) ! j ! k =
                          (if t < corpus_count imgs (processed_tokens (imgs ! i) ! j ! k)
                           then processed_tokens (imgs ! i) ! j ! k else ''UNK''))))"
proof -
  let ?imgs' = "map (\<lambda>img. img\<lparr>final_captions :=
                      map (map (substitute imgs t)) (processed_tokens img)\<rparr>) imgs"
  from assms obtain vocab where ret: "build_vocab iteritems imgs t = Inr (vocab, ?imgs')"
    by (simp add: build_vocab_result)
  have "length ?imgs' = length imgs
         \<and> (\<forall>i < length imgs.
              processed_tokens (?imgs' ! i) = processed_tokens (imgs ! i)
              \<and> length (final_captions (?imgs' ! i)) = length (processed_tokens (imgs ! i))
              \<and> (\<forall>j < length (processed_tokens (imgs ! i)).
                   length (final_captions (?imgs' ! i) ! j) = length (processed_tokens (imgs ! i) ! j)
                   \<and> (\<forall>k < length (processed_tokens (imgs ! i) ! j).
                        final_captions (?imgs' ! i) ! j ! k =
                          (if t < corpus_count imgs (processed_tokens (imgs ! i) ! j ! k)
                           then processed_tokens (imgs ! i) ! j ! k else ''UNK''))))"
    by (simp add: substitute_def)
  with ret show ?thesis by blast
qed

theorem build_vocab_final_captions_witness:
  "iteration_order id \<and> all_tokens example_tokens \<noteq> []
   \<and> build_vocab id example_tokens 1 = Inr ([''a'', ''UNK''], example_final)
   \<and> length example_final = length example_tokens
   \<and> length (final_captions (example_final ! 0) ! 1) = 3
   \<and> final_captions (example_final ! 0) ! 0 ! 0 = ''a''
   \<and> final_captions (example_final ! 0) ! 0 ! 1 = ''UNK''"
proof -
  have h1: "iteration_order id" by (simp add: iteration_order_def)
  have h2: "all_tokens example_tokens \<noteq> []"
    by (simp add: all_tokens_def example_tokens_def)
  have ev: "build_vocab id example_tokens 1 = Inr ([''a'', ''UNK''], example_final)"
    by (simp add: build_vocab_def example_tokens_def example_final_def count_words_def
        count_word_def get_def)
  have c: "corpus_count example_tokens ''dog'' = 1" "corpus_count example_tokens ''a'' = 2"
    by (simp_all add: corpus_count_def all_tokens_def example_tokens_def)
  have i: "(0::nat) < length example_tokens"
     "processed_tokens (example_tokens ! 0) = [[''a'', ''dog''], [''two'', ''dogs'', ''run'']]"
    by (simp_all add: example_tokens_def)
  from build_vocab_final_captions [OF h1 h2, of 1] ev have
    "length example_final = length example_tokens"
    "\<forall>j < length (processed_tokens (example_tokens ! 0)).
        length (final_captions (example_final ! 0) ! j)
          = length (processed_tokens (example_tokens ! 0) ! j)
        \<and> (\<forall>k < length (processed_tokens (example_tokens ! 0) ! j).
              final_captions (example_final ! 0) ! j ! k =
                (if 1 < corpus_count example_tokens (processed_tokens (example_tokens ! 0) ! j ! k)
                 then processed_tokens (example_tokens ! 0) ! j ! k else ''UNK''))"
    using i(1) by auto
  then have "length example_final = length example_tokens"
    "length (final_captions (example_final ! 0) ! 1) = 3"
    "final_captions (example_final ! 0) ! 0 ! 0 = ''a''"
    "final_captions (example_final ! 0) ! 0 ! 1 = ''UNK''"
    using c by (simp_all add: i(2) del: One_nat_def)
  with h1 h2 ev show ?thesis by blast
qed

section \<open>The loops of the encoder\<close>

lemma token_step_pair:
  "token_step ml wtoi j (k, w) Li =
     (if int k < ml
      then (case wtoi w of None \<Rightarrow> Inl (KeyError w)
            | Some ix \<Rightarrow> Inr (Li[j := (Li ! j)[k := of_nat ix]]))
      else Inr Li)"
  by (simp add: token_step_def)

lemma token_loop_Inr:
  assumes "for_each (token_step ml wtoi j) (enumerate k0 s) Li = Inr Li'"
  shows "length Li' = length Li
       \<and> (\<forall>j'. j' \<noteq> j \<longrightarrow> Li' ! j' = Li ! j')
       \<and> length (Li' ! j) = length (Li ! j)
       \<and> (\<forall>m < length (Li ! j). j < length Li \<longrightarrow> Li' ! j ! m =
            (if k0 \<le> m \<and> m < k0 + length s \<and> int m < ml then word_id wtoi (s ! (m - k0))
             else Li ! j ! m))
       \<and> (\<forall>k < length s. int (k0 + k) < ml \<longrightarrow> wtoi (s ! k) \<noteq> None)"
  using assms
proof (induction s arbitrary: k0 Li)
  case Nil
  then show ?case by auto
next
  case (Cons w ws)
  show ?case
  proof (cases "int k0 < ml")
    case False
    with Cons.prems have "for_each (token_step ml wtoi j) (enumerate (Suc k0) ws) Li = Inr Li'"
      by (simp add: token_step_pair)
    from Cons.IH [OF this] False show ?thesis
      by (auto simp: nth_Cons' less_Suc_eq_0_disj)
  next
    case True
    with Cons.prems obtain ix where ix: "wtoi w = Some ix"
      by (auto simp: token_step_pair split: option.splits)
    let ?Li1 = "Li[j := (Li ! j)[k0 := of_nat ix]]"
    from Cons.prems True ix
    have "for_each (token_step ml wtoi j) (enumerate (Suc k0) ws) ?Li1 = Inr Li'"
      by (simp add: token_step_pair)
    note IH = Cons.IH [OF this]
    have a: "length Li' = length Li" using IH by simp
    have b: "\<forall>j'. j' \<noteq> j \<longrightarrow> Li' ! j' = Li ! j'" using IH by simp
    have c: "length (Li' ! j) = length (Li ! j)"
      using IH by (cases "j < length Li") (simp_all add: list_update_beyond)
    have d: "Li' ! j ! m =
            (if k0 \<le> m \<and> m < k0 + length (w # ws) \<and> int m < ml
             then word_id wtoi ((w # ws) ! (m - k0)) else Li ! j ! m)"
      if "m < length (Li ! j)" "j < length Li" for m
    proof -
      from IH that have e: "Li' ! j ! m =
            (if Suc k0 \<le> m \<and> m < Suc k0 + length ws \<and> int m < ml
             then word_id wtoi (ws ! (m - Suc k0)) else ?Li1 ! j ! m)"
        by simp
      show ?thesis
      proof (cases "m = k0")
        case True
        then show ?thesis using e that \<open>int k0 < ml\<close> ix by (simp add: word_id_def)
      next
        case False
        then show ?thesis using e that by (auto simp: nth_Cons' Suc_diff_Suc)
      qed
    qed
    have f: "\<forall>k < length (w # ws). int (k0 + k) < ml \<longrightarrow> wtoi ((w # ws) ! k) \<noteq> None"
    proof (intro allI impI)
      fix k assume k: "k < length (w # ws)" "int (k0 + k) < ml"
      show "wtoi ((w # ws) ! k) \<noteq> None"
      proof (cases k)
        case 0
        then show ?thesis using ix by simp
      next
        case (Suc k')
        then show ?thesis using IH k by simp
      qed
    qed
    from a b c d f show ?thesis by blast
  qed
qed

lemma token_loop_Inl:
  assumes "for_each (token_step ml wtoi j) (enumerate k0 s) Li = Inl e"
  shows "\<exists>k < length s. int (k0 + k) < ml \<and> wtoi (s ! k) = None \<and> e = KeyError (s ! k)"
  using assms
proof (induction s arbitrary: k0 Li)
  case Nil
  then show ?case by simp
next
  case (Cons w ws)
  show ?case
  proof (cases "int k0 < ml \<and> wtoi w = None")
    case True
    with Cons.prems have "e = KeyError w" by (simp add: token_step_pair)
    with True show ?thesis by (intro exI [of _ 0]) simp
  next
    case False
    then have "\<exists>Li1. token_step ml wtoi j (k0, w) Li = Inr Li1"
      by (cases "wtoi w") (auto simp: token_step_pair)
    then obtain Li1 where "token_step ml wtoi j (k0, w) Li = Inr Li1" ..
    with Cons.prems have "for_each (token_step ml wtoi j) (enumerate (Suc k0) ws) Li1 = Inl e"
      by simp
    from Cons.IH [OF this] obtain k where
      "k < length ws" "int (Suc k0 + k) < ml" "wtoi (ws ! k) = None" "e = KeyError (ws ! k)"
      by blast
    then show ?thesis by (intro exI [of _ "Suc k"]) simp
  qed
qed

lemma token_loop_row:
  assumes "for_each (token_step ml wtoi j) (enumerate 0 s) Li = Inr Li'"
    and "j < length Li" and "Li ! j = replicate (nat ml) 0"
  shows "Li' = Li[j := encode_row ml wtoi s]"
proof -
  note r = token_loop_Inr [OF assms(1)]
  have len: "length (Li' ! j) = nat ml" using r assms(3) by simp
  have "Li' ! j = encode_row ml wtoi s"
  proof (rule nth_equalityI)
    show "length (Li' ! j) = length (encode_row ml wtoi s)"
      by (simp add: len encode_row_def)
  next
    fix m assume "m < length (Li' ! j)"
    then have m: "m < nat ml" using len by simp
    then have m': "int m < ml" by linarith
    have "Li' ! j ! m = (if m < length s then word_id wtoi (s ! m) else 0)"
      using r assms(2,3) m m' by simp
    also have "\<dots> = encode_row ml wtoi s ! m"
      using m by (simp add: encode_row_def nth_append)
    finally show "Li' ! j ! m = encode_row ml wtoi s ! m" .
  qed
  moreover have "length Li' = length Li" using r by simp
  ultimately show ?thesis
    using r assms(2) by (intro nth_equalityI) (auto simp: nth_list_update)
qed

lemma caption_step_pair:
  "caption_step ml wtoi (j, s) (lens, cc, Li) =
     (case for_each (token_step ml wtoi j) (enumerate 0 s) Li of
        Inl e \<Rightarrow> Inl e
      | Inr Li' \<Rightarrow> Inr (lens[cc := row_length ml s], Suc cc, Li'))"
  by (simp add: caption_step_def row_length_def split: sum.splits)

lemma take_Suc_update: "i < length xs \<Longrightarrow> take (Suc i) (xs[i := v]) = take i xs @ [v]"
  by (simp add: take_Suc_conv_app_nth)

lemma caption_loop_Inr:
  assumes "for_each (caption_step ml wtoi) (enumerate j0 caps) (lens, cc, Li) = Inr (lens', cc', Li')"
    and "j0 + length caps \<le> length Li"
    and "\<forall>j. j0 \<le> j \<and> j < j0 + length caps \<longrightarrow> Li ! j = replicate (nat ml) 0"
    and "cc + length caps \<le> length lens"
  shows "lens' = take cc lens @ map (row_length ml) caps @ drop (cc + length caps) lens
       \<and> cc' = cc + length caps
       \<and> Li' = take j0 Li @ map (encode_row ml wtoi) caps @ drop (j0 + length caps) Li"
  using assms
proof (induction caps arbitrary: j0 lens cc Li)
  case Nil
  then show ?case by simp
next
  case (Cons s caps)
  from Cons.prems(1) obtain Li1 where
    tok: "for_each (token_step ml wtoi j0) (enumerate 0 s) Li = Inr Li1"
    by (auto simp: caption_step_pair split: sum.splits)
  have j0: "j0 < length Li" and z: "Li ! j0 = replicate (nat ml) 0" and c: "cc < length lens"
    using Cons.prems(2,3,4) by simp_all
  have Li1: "Li1 = Li[j0 := encode_row ml wtoi s]"
    by (rule token_loop_row [OF tok j0 z])
  let ?lens1 = "lens[cc := row_length ml s]"
  from Cons.prems(1) tok have
    "for_each (caption_step ml wtoi) (enumerate (Suc j0) caps) (?lens1, Suc cc, Li1)
       = Inr (lens', cc', Li')"
    by (simp add: caption_step_pair)
  moreover have "Suc j0 + length caps \<le> length Li1" using Cons.prems(2) Li1 by simp
  moreover have "\<forall>j. Suc j0 \<le> j \<and> j < Suc j0 + length caps \<longrightarrow> Li1 ! j = replicate (nat ml) 0"
    using Cons.prems(3) Li1 by simp
  moreover have "Suc cc + length caps \<le> length ?lens1" using Cons.prems(4) by simp
  ultimately have IH:
    "lens' = take (Suc cc) ?lens1 @ map (row_length ml) caps @ drop (Suc cc + length caps) ?lens1
     \<and> cc' = Suc cc + length caps
     \<and> Li' = take (Suc j0) Li1 @ map (encode_row ml wtoi) caps @ drop (Suc j0 + length caps) Li1"
    by (rule Cons.IH)
  have "take (Suc cc) ?lens1 = take cc lens @ [row_length ml s]"
    using c by (rule take_Suc_update)
  moreover have "drop (Suc cc + length caps) ?lens1 = drop (Suc cc + length caps) lens"
    by simp
  moreover have "take (Suc j0) Li1 = take j0 Li @ [encode_row ml wtoi s]"
    unfolding Li1 using j0 by (rule take_Suc_update)
  moreover have "drop (Suc j0 + length caps) Li1 = drop (Suc j0 + length caps) Li"
    unfolding Li1 by simp
  ultimately show ?case using IH by simp
qed

lemma caption_loop_known:
  assumes "for_each (caption_step ml wtoi) (enumerate j0 caps) st = Inr st'"
  shows "\<forall>s \<in> set caps. \<forall>k < length s. int k < ml \<longrightarrow> wtoi (s ! k) \<noteq> None"
  using assms
proof (induction caps arbitrary: j0 st)
  case Nil
  then show ?case by simp
next
  case (Cons s caps)
  obtain lens cc Li where st: "st = (lens, cc, Li)" by (cases st)
  from Cons.prems obtain Li1 where
    tok: "for_each (token_step ml wtoi j0) (enumerate 0 s) Li = Inr Li1"
    by (auto simp: st caption_step_pair split: sum.splits)
  with Cons.prems have
    "for_each (caption_step ml wtoi) (enumerate (Suc j0) caps)
       (lens[cc := row_length ml s], Suc cc, Li1) = Inr st'"
    by (simp add: st caption_step_pair)
  then have "\<forall>s \<in> set caps. \<forall>k < length s. int k < ml \<longrightarrow> wtoi (s ! k) \<noteq> None"
    by (rule Cons.IH)
  moreover have "\<forall>k < length s. int k < ml \<longrightarrow> wtoi (s ! k) \<noteq> None"
    using token_loop_Inr [OF tok] by simp
  ultimately show ?case by simp
qed

lemma caption_loop_Inl:
  assumes "for_each (caption_step ml wtoi) (enumerate j0 caps) st = Inl e"
  shows "\<exists>s \<in> set caps. \<exists>k < length s. int k < ml \<and> wtoi (s ! k) = None \<and> e = KeyError (s ! k)"
  using assms
proof (induction caps arbitrary: j0 st)
  case Nil
  then show ?case by simp
next
  case (Cons s caps)
  obtain lens cc Li where st: "st = (lens, cc, Li)" by (cases st)
  show ?case
  proof (cases "for_each (token_step ml wtoi j0) (enumerate 0 s) Li")
    case (Inl e')
    with Cons.prems have "e' = e" by (simp add: st caption_step_pair)
    with token_loop_Inl [OF Inl] show ?thesis by auto
  next
    case (Inr Li1)
    with Cons.prems have
      "for_each (caption_step ml wtoi) (enumerate (Suc j0) caps)
         (lens[cc := row_length ml s], Suc cc, Li1) = Inl e"
      by (simp add: st caption_step_pair)
    from Cons.IH [OF this] show ?thesis by auto
  qed
qed

lemma img_step_pair:
  "img_step ml wtoi (i, img) st =
     (if final_captions img = [] then Inl (AssertionError ''error: some image has no captions'')
      else if ml < 0 then Inl ValueError
      else
        (case for_each (caption_step ml wtoi) (enumerate 0 (final_captions img))
                (label_length st, caption_counter st,
                 replicate (length (final_captions img)) (replicate (nat ml) 0))
         of Inl e \<Rightarrow> Inl e
          | Inr (lens, cc, Li) \<Rightarrow>
              Inr (st\<lparr>label_arrays := label_arrays st @ [Li],
                      label_start_ix := (label_start_ix st)[i := of_nat (counter st)],
                      label_end_ix := (label_end_ix st)
                         [i := of_nat (counter st + length (final_captions img) - 1)],
                      label_length := lens,
                      caption_counter := cc,
                      counter := counter st + length (final_captions img)\<rparr>)))"
  by (simp add: img_step_def Let_def)

lemma all_captions_Cons:
  "all_captions (img # imgs) = final_captions img @ all_captions imgs"
  by (simp add: all_captions_def)

lemma length_span_starts: "length (span_starts c ns) = length ns"
  by (induction ns arbitrary: c) simp_all

lemma length_span_ends: "length (span_ends c ns) = length ns"
  by (induction ns arbitrary: c) simp_all

lemma img_loop_Inr:
  assumes "for_each (img_step ml wtoi) (enumerate i0 imgs) st = Inr st'"
    and "i0 + length imgs \<le> length (label_start_ix st)"
    and "i0 + length imgs \<le> length (label_end_ix st)"
    and "caption_counter st + length (all_captions imgs) \<le> length (label_length st)"
  shows "label_arrays st' =
           label_arrays st @ map (\<lambda>img. map (encode_row ml wtoi) (final_captions img)) imgs
       \<and> label_start_ix st' =
           take i0 (label_start_ix st) @ map of_nat (span_starts (counter st) (caption_counts imgs))
             @ drop (i0 + length imgs) (label_start_ix st)
       \<and> label_end_ix st' =
           take i0 (label_end_ix st) @ map of_nat (span_ends (counter st) (caption_counts imgs))
             @ drop (i0 + length imgs) (label_end_ix st)
       \<and> label_length st' =
           take (caption_counter st) (label_length st) @ map (row_length ml) (all_captions imgs)
             @ drop (caption_counter st + length (all_captions imgs)) (label_length st)
       \<and> caption_counter st' = caption_counter st + length (all_captions imgs)
       \<and> counter st' = counter st + length (all_captions imgs)"
  using assms
proof (induction imgs arbitrary: i0 st)
  case Nil
  then show ?case by (simp add: all_captions_def caption_counts_def)
next
  case (Cons img imgs)
  let ?caps = "final_captions img"
  let ?n = "length ?caps"
  let ?zero = "replicate ?n (replicate (nat ml) (0::uint32))"
  from Cons.prems(1) have n: "?caps \<noteq> []" and ml: "\<not> ml < 0"
    by (auto simp: img_step_pair split: if_splits)
  from Cons.prems(1) n ml obtain lens cc Li where
    cap: "for_each (caption_step ml wtoi) (enumerate 0 ?caps)
            (label_length st, caption_counter st, ?zero) = Inr (lens, cc, Li)"
    by (auto simp: img_step_pair split: sum.splits)
  have le: "caption_counter st + ?n \<le> length (label_length st)"
    using Cons.prems(4) by (simp add: all_captions_Cons)
  have "lens = take (caption_counter st) (label_length st) @ map (row_length ml) ?caps
                 @ drop (caption_counter st + ?n) (label_length st)
        \<and> cc = caption_counter st + ?n
        \<and> Li = take 0 ?zero @ map (encode_row ml wtoi) ?caps @ drop (0 + ?n) ?zero"
    by (rule caption_loop_Inr [OF cap]) (use le in simp_all)
  then have lens: "lens = take (caption_counter st) (label_length st) @ map (row_length ml) ?caps
                 @ drop (caption_counter st + ?n) (label_length st)"
    and cc: "cc = caption_counter st + ?n"
    and Li: "Li = map (encode_row ml wtoi) ?caps"
    by simp_all
  let ?st1 = "st\<lparr>label_arrays := label_arrays st @ [Li],
                 label_start_ix := (label_start_ix st)[i0 := of_nat (counter st)],
                 label_end_ix := (label_end_ix st)[i0 := of_nat (counter st + ?n - 1)],
                 label_length := lens,
                 caption_counter := cc,
                 counter := counter st + ?n\<rparr>"
  from Cons.prems(1) n ml cap
  have loop: "for_each (img_step ml wtoi) (enumerate (Suc i0) imgs) ?st1 = Inr st'"
    by (simp add: img_step_pair)
  have len_lens: "length lens = length (label_length st)"
    using le by (simp add: lens)
  have IH: "label_arrays st' =
           label_arrays ?st1 @ map (\<lambda>img. map (encode_row ml wtoi) (final_captions img)) imgs
       \<and> label_start_ix st' =
           take (Suc i0) (label_start_ix ?st1)
             @ map of_nat (span_starts (counter ?st1) (caption_counts imgs))
             @ drop (Suc i0 + length imgs) (label_start_ix ?st1)
       \<and> label_end_ix st' =
           take (Suc i0) (label_end_ix ?st1)
             @ map of_nat (span_ends (counter ?st1) (caption_counts imgs))
             @ drop (Suc i0 + length imgs) (label_end_ix ?st1)
       \<and> label_length st' =
           take (caption_counter ?st1) (label_length ?st1) @ map (row_length ml) (all_captions imgs)
             @ drop (caption_counter ?st1 + length (all_captions imgs)) (label_length ?st1)
       \<and> caption_counter st' = caption_counter ?st1 + length (all_captions imgs)
       \<and> counter st' = counter ?st1 + length (all_captions imgs)"
    by (rule Cons.IH [OF loop])
      (use Cons.prems(2,3,4) in \<open>simp_all add: len_lens cc all_captions_Cons\<close>)
  have i0: "i0 < length (label_start_ix st)" "i0 < length (label_end_ix st)"
    using Cons.prems(2,3) by simp_all
  have a: "label_arrays st' =
           label_arrays st @ map (\<lambda>img. map (encode_row ml wtoi) (final_captions img)) (img # imgs)"
    using IH by (simp add: Li)
  have b: "label_start_ix st' =
           take i0 (label_start_ix st)
             @ map of_nat (span_starts (counter st) (caption_counts (img # imgs)))
             @ drop (i0 + length (img # imgs)) (label_start_ix st)"
    using IH i0 by (simp add: take_Suc_update caption_counts_def)
  have c: "label_end_ix st' =
           take i0 (label_end_ix st)
             @ map of_nat (span_ends (counter st) (caption_counts (img # imgs)))
             @ drop (i0 + length (img # imgs)) (label_end_ix st)"
    using IH i0 by (simp add: take_Suc_update caption_counts_def)
  have t: "take (caption_counter st + ?n) lens
             = take (caption_counter st) (label_length st) @ map (row_length ml) ?caps"
    using le by (simp add: lens)
  have d: "drop (caption_counter st + ?n + length (all_captions imgs)) lens
             = drop (caption_counter st + length (all_captions (img # imgs))) (label_length st)"
    using le by (simp add: lens all_captions_Cons ac_simps)
  have e: "label_length st' =
           take (caption_counter st) (label_length st)
             @ map (row_length ml) (all_captions (img # imgs))
             @ drop (caption_counter st + length (all_captions (img # imgs))) (label_length st)"
    using IH t d by (simp add: cc all_captions_Cons)
  have f: "caption_counter st' = caption_counter st + length (all_captions (img # imgs))"
    using IH by (simp add: cc all_captions_Cons)
  have g: "counter st' = counter st + length (all_captions (img # imgs))"
    using IH by (simp add: all_captions_Cons)
  from a b c e f g show ?case by blast
qed

lemma img_loop_conditions:
  assumes "for_each (img_step ml wtoi) (enumerate i0 imgs) st = Inr st'"
  shows "(\<forall>img \<in> set imgs. final_captions img \<noteq> [])
       \<and> (imgs \<noteq> [] \<longrightarrow> 0 \<le> ml)
       \<and> (\<forall>s \<in> set (all_captions imgs). \<forall>k < length s. int k < ml \<longrightarrow> wtoi (s ! k) \<noteq> None)"
  using assms
proof (induction imgs arbitrary: i0 st)
  case Nil
  then show ?case by (simp add: all_captions_def)
next
  case (Cons img imgs)
  from Cons.prems have n: "final_captions img \<noteq> []" and ml: "\<not> ml < 0"
    by (auto simp: img_step_pair split: if_splits)
  from Cons.prems n ml obtain c1 where
    cap: "for_each (caption_step ml wtoi) (enumerate 0 (final_captions img))
            (label_length st, caption_counter st,
             replicate (length (final_captions img)) (replicate (nat ml) 0)) = Inr c1"
    by (auto simp: img_step_pair split: sum.splits)
  from Cons.prems n ml cap obtain st1 where
    "for_each (img_step ml wtoi) (enumerate (Suc i0) imgs) st1 = Inr st'"
    by (cases c1) (auto simp: img_step_pair)
  note IH = Cons.IH [OF this]
  from caption_loop_known [OF cap] IH n ml show ?case
    by (auto simp: all_captions_Cons)
qed

lemma img_loop_Inl:
  assumes "for_each (img_step ml wtoi) (enumerate i0 imgs) st = Inl e"
  shows "(e = AssertionError ''error: some image has no captions''
            \<and> (\<exists>img \<in> set imgs. final_captions img = []))
       \<or> (e = ValueError \<and> ml < 0 \<and> imgs \<noteq> [])
       \<or> (\<exists>s \<in> set (all_captions imgs). \<exists>k < length s.
             int k < ml \<and> wtoi (s ! k) = None \<and> e = KeyError (s ! k))"
  using assms
proof (induction imgs arbitrary: i0 st)
  case Nil
  then show ?case by simp
next
  case (Cons img imgs)
  show ?case
  proof (cases "img_step ml wtoi (i0, img) st")
    case (Inr st1)
    with Cons.prems have "for_each (img_step ml wtoi) (enumerate (Suc i0) imgs) st1 = Inl e"
      by simp
    from Cons.IH [OF this] show ?thesis by (auto simp: all_captions_Cons)
  next
    case (Inl e')
    with Cons.prems have e: "e' = e" by simp
    show ?thesis
    proof (cases "final_captions img = []")
      case True
      with Inl e show ?thesis by (simp add: img_step_pair)
    next
      case False
      note n = this
      show ?thesis
      proof (cases "ml < 0")
        case True
        with Inl e n show ?thesis by (simp add: img_step_pair)
      next
        case False
        with Inl e n have
          "for_each (caption_step ml wtoi) (enumerate 0 (final_captions img))
            (label_length st, caption_counter st,
             replicate (length (final_captions img)) (replicate (nat ml) 0)) = Inl e"
          by (auto simp: img_step_pair split: sum.splits)
        from caption_loop_Inl [OF this] show ?thesis
          by (auto simp: all_captions_Cons)
      qed
    qed
  qed
qed

lemma length_all_captions:
  "length (all_captions imgs) = sum_list (map (\<lambda>img. length (final_captions img)) imgs)"
  by (simp add: all_captions_def length_concat comp_def)

lemma encode_loop_Inr:
  assumes "encode_loop imgs ml wtoi = Inr st"
  shows "label_arrays st = map (\<lambda>img. map (encode_row ml wtoi) (final_captions img)) imgs
       \<and> label_start_ix st = map of_nat (span_starts 1 (caption_counts imgs))
       \<and> label_end_ix st = map of_nat (span_ends 1 (caption_counts imgs))
       \<and> label_length st = map (row_length ml) (all_captions imgs)
       \<and> caption_counter st = length (all_captions imgs)
       \<and> counter st = 1 + length (all_captions imgs)"
proof -
  let ?st0 = "\<lparr>label_arrays = [], label_start_ix = replicate (length imgs) 0,
               label_end_ix = replicate (length imgs) 0,
               label_length = replicate (length (all_captions imgs)) 0,
               caption_counter = 0, counter = 1\<rparr>"
  from assms have "for_each (img_step ml wtoi) (enumerate 0 imgs) ?st0 = Inr st"
    by (simp add: encode_loop_def Let_def length_all_captions)
  from img_loop_Inr [OF this] show ?thesis by simp
qed

lemma encode_loop_conditions:
  assumes "encode_loop imgs ml wtoi = Inr st"
  shows "(\<forall>img \<in> set imgs. final_captions img \<noteq> [])
       \<and> (imgs \<noteq> [] \<longrightarrow> 0 \<le> ml)
       \<and> (\<forall>s \<in> set (all_captions imgs). \<forall>k < length s. int k < ml \<longrightarrow> wtoi (s ! k) \<noteq> None)"
  using assms unfolding encode_loop_def Let_def by (rule img_loop_conditions)

lemma encode_loop_Inl:
  assumes "encode_loop imgs ml wtoi = Inl e"
  shows "(e = AssertionError ''error: some image has no captions''
            \<and> (\<exists>img \<in> set imgs. final_captions img = []))
       \<or> (e = ValueError \<and> ml < 0 \<and> imgs \<noteq> [])
       \<or> (\<exists>s \<in> set (all_captions imgs). \<exists>k < length s.
             int k < ml \<and> wtoi (s ! k) = None \<and> e = KeyError (s ! k))"
  using assms unfolding encode_loop_def Let_def by (rule img_loop_Inl)

lemma concat_label_arrays:
  "concat (map (\<lambda>img. map f (final_captions img)) imgs) = map f (all_captions imgs)"
  by (simp add: all_captions_def map_concat comp_def)

lemma encode_captions_unfold:
  "encode_captions imgs ml wtoi =
     (case encode_loop imgs ml wtoi of
        Inl e \<Rightarrow> Inl e
      | Inr st \<Rightarrow>
          if imgs = [] then Inl ValueError
          else if \<exists>s \<in> set (all_captions imgs). row_length ml s = 0
          then Inl (AssertionError ''error: some caption had no words?'')
          else Inr (map (encode_row ml wtoi) (all_captions imgs),
                    map of_nat (span_starts 1 (caption_counts imgs)),
                    map of_nat (span_ends 1 (caption_counts imgs)),
                    map (row_length ml) (all_captions imgs)))"
proof (cases "encode_loop imgs ml wtoi")
  case (Inl e)
  then show ?thesis by (simp add: encode_captions_def)
next
  case (Inr st)
  note cf = encode_loop_Inr [OF Inr]
  have "(\<forall>l \<in> set (label_length st). 0 < l)
          \<longleftrightarrow> \<not> (\<exists>s \<in> set (all_captions imgs). row_length ml s = 0)"
    using cf by (auto simp: word_greater_zero_iff)
  then show ?thesis
    using Inr cf
    by (simp add: encode_captions_def Let_def concat_label_arrays length_all_captions [symmetric])
qed

section \<open>Span pointers\<close>

lemma nth_span_starts:
  "i < length ns \<Longrightarrow> span_starts c ns ! i = c + sum_list (take i ns)"
proof (induction ns arbitrary: c i)
  case Nil
  then show ?case by simp
next
  case (Cons n ns)
  then show ?case by (cases i) simp_all
qed

lemma nth_span_ends:
  "i < length ns \<Longrightarrow> 1 \<le> c \<Longrightarrow> span_ends c ns ! i + 1 = c + sum_list (take (Suc i) ns)"
proof (induction ns arbitrary: c i)
  case Nil
  then show ?case by simp
next
  case (Cons n ns)
  show ?case
  proof (cases i)
    case 0
    then show ?thesis using Cons.prems by simp
  next
    case (Suc i')
    with Cons.prems have "span_ends (c + n) ns ! i' + 1 = (c + n) + sum_list (take (Suc i') ns)"
      by (intro Cons.IH) simp_all
    then show ?thesis using Suc by simp
  qed
qed

lemma sum_list_take_Suc:
  "i < length ns \<Longrightarrow> sum_list (take (Suc i) ns) = sum_list (take i ns) + (ns ! i :: nat)"
  by (simp add: take_Suc_conv_app_nth)

lemma sum_list_take_le: "sum_list (take i ns) \<le> sum_list (ns :: nat list)"
proof -
  have "sum_list ns = sum_list (take i ns) + sum_list (drop i ns)"
    by (metis append_take_drop_id sum_list_append)
  then show ?thesis by simp
qed

lemma unat_of_nat_small:
  "x < 2 ^ 32 \<Longrightarrow> unat (of_nat x :: uint32) = x"
  by (simp add: unat_of_nat)

lemma caption_counts_nth:
  "i < length imgs \<Longrightarrow> caption_counts imgs ! i = length (final_captions (imgs ! i))"
  by (simp add: caption_counts_def)

lemma sum_caption_counts: "sum_list (caption_counts imgs) = length (all_captions imgs)"
  by (simp add: caption_counts_def length_all_captions)

lemma encode_captions_Inr:
  assumes "encode_captions imgs ml wtoi = Inr (L, start_ix, end_ix, lens)"
  shows "(\<exists>st. encode_loop imgs ml wtoi = Inr st \<and> counter st = 1 + length (all_captions imgs))
       \<and> imgs \<noteq> [] \<and> 0 \<le> ml
       \<and> (\<forall>img \<in> set imgs. final_captions img \<noteq> [])
       \<and> (\<forall>s \<in> set (all_captions imgs). \<forall>k < length s. int k < ml \<longrightarrow> wtoi (s ! k) \<noteq> None)
       \<and> (\<forall>s \<in> set (all_captions imgs). row_length ml s \<noteq> 0)
       \<and> L = map (encode_row ml wtoi) (all_captions imgs)
       \<and> start_ix = map of_nat (span_starts 1 (caption_counts imgs))
       \<and> end_ix = map of_nat (span_ends 1 (caption_counts imgs))
       \<and> lens = map (row_length ml) (all_captions imgs)"
proof (cases "encode_loop imgs ml wtoi")
  case (Inl e)
  with assms show ?thesis by (simp add: encode_captions_unfold)
next
  case (Inr st)
  from assms Inr have ne: "imgs \<noteq> []"
    by (auto simp: encode_captions_unfold split: if_splits)
  from assms Inr ne have nz: "\<forall>s \<in> set (all_captions imgs). row_length ml s \<noteq> 0"
    by (auto simp: encode_captions_unfold split: if_splits)
  from assms Inr ne nz have
    "L = map (encode_row ml wtoi) (all_captions imgs)"
    "start_ix = map of_nat (span_starts 1 (caption_counts imgs))"
    "end_ix = map of_nat (span_ends 1 (caption_counts imgs))"
    "lens = map (row_length ml) (all_captions imgs)"
    by (auto simp: encode_captions_unfold split: if_splits)
  moreover have "counter st = 1 + length (all_captions imgs)"
    using encode_loop_Inr [OF Inr] by simp
  ultimately show ?thesis
    using encode_loop_conditions [OF Inr] Inr ne nz by simp
qed

text \<open>
  The span pointers of a run that returned.
\<close>

lemma spans_when_returned:
  assumes "encode_captions imgs ml wtoi = Inr (L, start_ix, end_ix, lens)"
  shows "length start_ix = length imgs \<and> length end_ix = length imgs
       \<and> start_ix ! 0 = 1
       \<and> (\<forall>i. 0 < i \<and> i < length imgs \<longrightarrow> start_ix ! i = end_ix ! (i - 1) + 1)
       \<and> (\<forall>i < length imgs.
            end_ix ! i - start_ix ! i + 1 = of_nat (length (final_captions (imgs ! i))))
       \<and> length L = sum_list (map (\<lambda>img. length (final_captions img)) imgs)
       \<and> (\<exists>st. encode_loop imgs ml wtoi = Inr st
              \<and> counter st - 1 = sum_list (map (\<lambda>img. length (final_captions img)) imgs))
       \<and> (sum_list (map (\<lambda>img. length (final_captions img)) imgs) < 2 ^ 32 \<longrightarrow>
            unat (start_ix ! 0) = 1
          \<and> (\<forall>i. 0 < i \<and> i < length imgs \<longrightarrow> unat (start_ix ! i) = unat (end_ix ! (i - 1)) + 1)
          \<and> (\<forall>i < length imgs.
               unat (end_ix ! i) - unat (start_ix ! i) + 1 = length (final_captions (imgs ! i)))
          \<and> (\<Sum>i = 0..<length imgs. unat (end_ix ! i) - unat (start_ix ! i) + 1)
               = sum_list (map (\<lambda>img. length (final_captions img)) imgs))"
proof -
  let ?ns = "caption_counts imgs"
  let ?M = "sum_list (map (\<lambda>img. length (final_captions img)) imgs)"
  note r = encode_captions_Inr [OF assms]
  have M: "?M = length (all_captions imgs)" by (simp add: length_all_captions)
  have sumM: "sum_list ?ns = ?M" by (simp add: caption_counts_def)
  have len: "length ?ns = length imgs" by (simp add: caption_counts_def)
  have ne: "imgs \<noteq> []" using r by simp
  have pos: "1 \<le> ?ns ! i" if "i < length imgs" for i
  proof -
    have "final_captions (imgs ! i) \<noteq> []" using r that by simp
    then show ?thesis using that by (simp add: caption_counts_nth Suc_le_eq)
  qed
  have st: "start_ix ! i = of_nat (1 + sum_list (take i ?ns))" if "i < length imgs" for i
    using r that len by (simp add: length_span_starts nth_span_starts)
  have en: "end_ix ! i + 1 = of_nat (1 + sum_list (take (Suc i) ?ns))" if "i < length imgs" for i
  proof -
    have "end_ix ! i + 1 = of_nat (span_ends 1 ?ns ! i + 1)"
      using r that len by (simp add: length_span_ends)
    moreover have "span_ends 1 ?ns ! i + 1 = 1 + sum_list (take (Suc i) ?ns)"
      by (rule nth_span_ends) (simp_all add: that len)
    ultimately show ?thesis by (simp only:)
  qed
  have a: "length start_ix = length imgs" "length end_ix = length imgs"
    using r len by (simp_all add: length_span_starts length_span_ends)
  have b: "start_ix ! 0 = 1" using st [of 0] ne by simp
  have c: "start_ix ! i = end_ix ! (i - 1) + 1" if "0 < i \<and> i < length imgs" for i
  proof -
    from that have "i - 1 < length imgs" "Suc (i - 1) = i" "i < length imgs" by arith+
    then show ?thesis using st [of i] en [of "i - 1"] by simp
  qed
  have d: "end_ix ! i - start_ix ! i + 1 = of_nat (length (final_captions (imgs ! i)))"
    if "i < length imgs" for i
  proof -
    have "end_ix ! i - start_ix ! i + 1 = (end_ix ! i + 1) - start_ix ! i" by simp
    also have "\<dots> = of_nat (?ns ! i)"
      using that len by (simp add: st en sum_list_take_Suc del: sum_list.Cons take_Suc_Cons)
    finally show ?thesis using that by (simp add: caption_counts_nth)
  qed
  have e: "length L = ?M" using r by (simp add: M)
  have f: "\<exists>st. encode_loop imgs ml wtoi = Inr st \<and> counter st - 1 = ?M"
    using r by (auto simp: M)
  have g: "unat (start_ix ! 0) = 1
          \<and> (\<forall>i. 0 < i \<and> i < length imgs \<longrightarrow> unat (start_ix ! i) = unat (end_ix ! (i - 1)) + 1)
          \<and> (\<forall>i < length imgs.
               unat (end_ix ! i) - unat (start_ix ! i) + 1 = length (final_captions (imgs ! i)))
          \<and> (\<Sum>i = 0..<length imgs. unat (end_ix ! i) - unat (start_ix ! i) + 1) = ?M"
    if small: "?M < 2 ^ 32"
  proof -
    have bound: "sum_list (take k ?ns) < 2 ^ 32" for k
      using sum_list_take_le [of k ?ns] small sumM by simp
    have us: "unat (start_ix ! i) = 1 + sum_list (take i ?ns)" if i: "i < length imgs" for i
    proof -
      have "1 + sum_list (take i ?ns) \<le> sum_list (take (Suc i) ?ns)"
        using pos [OF i] i len by (simp add: sum_list_take_Suc)
      then have "1 + sum_list (take i ?ns) < 2 ^ 32"
        using bound [of "Suc i"] by simp
      then show ?thesis unfolding st [OF i] by (rule unat_of_nat_small)
    qed
    have ue: "unat (end_ix ! i) + 1 = 1 + sum_list (take (Suc i) ?ns)"
      if i: "i < length imgs" for i
    proof -
      have eq: "span_ends 1 ?ns ! i + 1 = 1 + sum_list (take (Suc i) ?ns)"
        by (rule nth_span_ends) (simp_all add: i len)
      then have "span_ends 1 ?ns ! i < 2 ^ 32"
        using bound [of "Suc i"] by simp
      then have "unat (of_nat (span_ends 1 ?ns ! i) :: uint32) = span_ends 1 ?ns ! i"
        by (rule unat_of_nat_small)
      moreover have "end_ix ! i = of_nat (span_ends 1 ?ns ! i)"
        using r i len by (simp add: length_span_ends)
      ultimately show ?thesis using eq by simp
    qed
    have g1: "unat (start_ix ! 0) = 1" using b by simp
    have g2: "unat (start_ix ! i) = unat (end_ix ! (i - 1)) + 1"
      if "0 < i \<and> i < length imgs" for i
    proof -
      from that have "i - 1 < length imgs" "Suc (i - 1) = i" "i < length imgs" by arith+
      then show ?thesis using us [of i] ue [of "i - 1"] by simp
    qed
    have g3: "unat (end_ix ! i) - unat (start_ix ! i) + 1 = length (final_captions (imgs ! i))"
      if i: "i < length imgs" for i
    proof -
      have "unat (end_ix ! i) + 1 = unat (start_ix ! i) + ?ns ! i"
        using us [OF i] ue [OF i] i len by (simp add: sum_list_take_Suc del: take_Suc_Cons)
      then show ?thesis using pos [OF i] i by (simp add: caption_counts_nth)
    qed
    have "(\<Sum>i = 0..<length imgs. unat (end_ix ! i) - unat (start_ix ! i) + 1)
            = (\<Sum>i = 0..<length ?ns. ?ns ! i)"
    proof (unfold len, rule sum.cong)
      fix i assume "i \<in> {0..<length imgs}"
      then have i: "i < length imgs" by simp
      show "unat (end_ix ! i) - unat (start_ix ! i) + 1 = ?ns ! i"
        using g3 [OF i] i by (simp only: caption_counts_nth)
    qed (rule refl)
    also have "\<dots> = sum_list ?ns" by (simp add: sum_list_sum_nth)
    finally have g4: "(\<Sum>i = 0..<length imgs. unat (end_ix ! i) - unat (start_ix ! i) + 1) = ?M"
      using sumM by simp
    from g1 g2 g3 g4 show ?thesis by blast
  qed
  from a b c d e f g show ?thesis by blast
qed

section \<open>Rows and lengths\<close>

lemma encode_captions_returns:
  assumes "imgs \<noteq> []" and "\<forall>img \<in> set imgs. final_captions img \<noteq> []" and "0 \<le> ml"
    and "\<forall>s \<in> set (all_captions imgs). \<forall>k < length s. int k < ml \<longrightarrow> wtoi (s ! k) \<noteq> None"
    and "\<forall>s \<in> set (all_captions imgs). row_length ml s \<noteq> 0"
  shows "encode_captions imgs ml wtoi =
           Inr (map (encode_row ml wtoi) (all_captions imgs),
                map of_nat (span_starts 1 (caption_counts imgs)),
                map of_nat (span_ends 1 (caption_counts imgs)),
                map (row_length ml) (all_captions imgs))"
proof (cases "encode_loop imgs ml wtoi")
  case (Inl e)
  from encode_loop_Inl [OF Inl] assms(2,3,4) have False by fastforce
  then show ?thesis ..
next
  case (Inr st)
  then show ?thesis using assms(1,5) by (simp add: encode_captions_unfold)
qed

lemma row_length_unat:
  assumes "0 \<le> ml" and "min (nat ml) (length s) < 2 ^ 32"
  shows "unat (row_length ml s) = min (nat ml) (length s)"
proof -
  have "min ml (int (length s)) = int (min (nat ml) (length s))"
    using assms(1) by simp
  then have "row_length ml s = of_nat (min (nat ml) (length s))"
    by (simp only: row_length_def of_int_of_nat_eq)
  then show ?thesis using assms(2) by (simp only: unat_of_nat_small)
qed

lemma row_length_of_nat:
  assumes "0 \<le> ml"
  shows "row_length ml s = of_nat (min (nat ml) (length s))"
proof -
  have "min ml (int (length s)) = int (min (nat ml) (length s))"
    using assms(1) by simp
  then show "row_length ml s = of_nat (min (nat ml) (length s))"
    by (simp only: row_length_def of_int_of_nat_eq)
qed



lemma in_all_captions:
  "s \<in> set (all_captions imgs) \<longleftrightarrow> (\<exists>img \<in> set imgs. s \<in> set (final_captions img))"
  by (auto simp: all_captions_def)



section \<open>Failures of the encoder\<close>

lemma row_length_Nil: "0 \<le> ml \<Longrightarrow> row_length ml [] = 0"
  by (simp add: row_length_def)

lemma encode_captions_Inl:
  assumes "encode_captions imgs ml wtoi = Inl e"
  shows "(e = AssertionError ''error: some image has no captions''
            \<and> (\<exists>img \<in> set imgs. final_captions img = []))
       \<or> (e = ValueError \<and> (ml < 0 \<or> imgs = []))
       \<or> (\<exists>s \<in> set (all_captions imgs). \<exists>k < length s.
             int k < ml \<and> wtoi (s ! k) = None \<and> e = KeyError (s ! k))
       \<or> (e = AssertionError ''error: some caption had no words?''
            \<and> (\<exists>s \<in> set (all_captions imgs). row_length ml s = 0))"
proof (cases "encode_loop imgs ml wtoi")
  case (Inl e')
  with assms have "e' = e" by (simp add: encode_captions_unfold)
  with encode_loop_Inl [OF Inl] show ?thesis by blast
next
  case (Inr st)
  with assms show ?thesis
    by (auto simp: encode_captions_unfold split: if_splits)
qed

lemma known_prefix:
  assumes "\<forall>img \<in> set imgs. \<forall>s \<in> set (final_captions img). set (take (nat ml) s) \<subseteq> dom wtoi"
    and "s \<in> set (all_captions imgs)" and "k < length s" and "int k < ml"
  shows "wtoi (s ! k) \<noteq> None"
proof -
  from assms(1,2) have sub: "set (take (nat ml) s) \<subseteq> dom wtoi"
    by (auto simp: in_all_captions)
  have "k < nat ml" using assms(4) by simp
  then have "s ! k \<in> set (take (nat ml) s)"
    using assms(3) by (auto simp: in_set_conv_nth intro!: exI [of _ k])
  with sub show ?thesis by auto
qed

text \<open>
  Claim C5. \<open>encode_captions\<close> raises if some record has no captions, and raises if some
  caption has no words; when every record has a caption, \<open>max_length\<close> is not negative and
  every looked-up word is a key of \<open>wtoi\<close>, the exception for a caption without words is
  the assertion "some caption had no words?". Whenever \<open>encode_captions\<close> returns, every
  record has at least one caption, every caption has at least one word and every recorded
  length is greater than zero.
\<close>

theorem encode_captions_failures:
  "((\<exists>img \<in> set imgs. final_captions img = []) \<longrightarrow>
       (\<exists>e. encode_captions imgs ml wtoi = Inl e))
   \<and> ((\<exists>img \<in> set imgs. [] \<in> set (final_captions img)) \<longrightarrow>
       (\<exists>e. encode_captions imgs ml wtoi = Inl e
          \<and> ((\<forall>img \<in> set imgs. final_captions img \<noteq> []) \<and> 0 \<le> ml
               \<and> (\<forall>img \<in> set imgs. \<forall>s \<in> set (final_captions img).
                     set (take (nat ml) s) \<subseteq> dom wtoi)
              \<longrightarrow> e = AssertionError ''error: some caption had no words?'')))
   \<and> (\<forall>L start_ix end_ix lens.
        encode_captions imgs ml wtoi = Inr (L, start_ix, end_ix, lens) \<longrightarrow>
          (\<forall>img \<in> set imgs. final_captions img \<noteq> [] \<and> [] \<notin> set (final_captions img))
        \<and> (\<forall>l \<in> set lens. 0 < l))"
proof -
  have A: "\<exists>e. encode_captions imgs ml wtoi = Inl e"
    if "\<exists>img \<in> set imgs. final_captions img = []"
  proof -
    from that have "\<not> (\<exists>r. encode_captions imgs ml wtoi = Inr r)"
      using encode_captions_Inr [of imgs ml wtoi] by (metis prod_cases4)
    then show ?thesis
      by (cases "encode_captions imgs ml wtoi") auto
  qed
  have B: "\<exists>e. encode_captions imgs ml wtoi = Inl e
          \<and> ((\<forall>img \<in> set imgs. final_captions img \<noteq> []) \<and> 0 \<le> ml
               \<and> (\<forall>img \<in> set imgs. \<forall>s \<in> set (final_captions img).
                     set (take (nat ml) s) \<subseteq> dom wtoi)
              \<longrightarrow> e = AssertionError ''error: some caption had no words?'')"
    if empty: "\<exists>img \<in> set imgs. [] \<in> set (final_captions img)"
  proof -
    from empty have mem: "\<exists>img \<in> set imgs. [] \<in> set (final_captions img)"
      "[] \<in> set (all_captions imgs)" by (auto simp: in_all_captions)
    have no: "\<not> (\<exists>r. encode_captions imgs ml wtoi = Inr r)"
    proof
      assume "\<exists>r. encode_captions imgs ml wtoi = Inr r"
      then obtain L start_ix end_ix lens where
        "encode_captions imgs ml wtoi = Inr (L, start_ix, end_ix, lens)"
        by (metis prod_cases4)
      from encode_captions_Inr [OF this] mem have "0 \<le> ml" "row_length ml [] \<noteq> 0" by auto
      then show False by (simp add: row_length_Nil)
    qed
    then obtain e where e: "encode_captions imgs ml wtoi = Inl e"
      by (cases "encode_captions imgs ml wtoi") auto
    have "e = AssertionError ''error: some caption had no words?''"
      if ok: "(\<forall>img \<in> set imgs. final_captions img \<noteq> []) \<and> 0 \<le> ml
                 \<and> (\<forall>img \<in> set imgs. \<forall>s \<in> set (final_captions img).
                       set (take (nat ml) s) \<subseteq> dom wtoi)"
    proof -
      from ok have known: "wtoi (s ! k) \<noteq> None"
        if "s \<in> set (all_captions imgs)" "k < length s" "int k < ml" for s k
        using known_prefix [OF _ that] by blast
      from empty have "imgs \<noteq> []" by auto
      with encode_captions_Inl [OF e] ok known show ?thesis by fastforce
    qed
    with e show ?thesis by blast
  qed
  have C: "(\<forall>img \<in> set imgs. final_captions img \<noteq> [] \<and> [] \<notin> set (final_captions img))
        \<and> (\<forall>l \<in> set lens. 0 < l)"
    if r: "encode_captions imgs ml wtoi = Inr (L, start_ix, end_ix, lens)"
    for L start_ix end_ix lens
  proof -
    note cf = encode_captions_Inr [OF r]
    have ne: "\<forall>img \<in> set imgs. final_captions img \<noteq> []" using cf by blast
    have "[] \<notin> set (all_captions imgs)"
    proof
      assume "[] \<in> set (all_captions imgs)"
      with cf have "0 \<le> ml" "row_length ml [] \<noteq> 0" by auto
      then show False by (simp add: row_length_Nil)
    qed
    then have nw: "\<forall>img \<in> set imgs. [] \<notin> set (final_captions img)"
      by (auto simp: in_all_captions)
    have "\<forall>l \<in> set lens. 0 < l"
      using cf by (auto simp: word_greater_zero_iff)
    with ne nw show ?thesis by blast
  qed
  from A B C show ?thesis by blast
qed

theorem encode_captions_failures_witness:
  "(\<exists>img \<in> set example_no_captions. final_captions img = [])
   \<and> encode_captions example_no_captions 4 (make_wtoi [''a''])
        = Inl (AssertionError ''error: some image has no captions'')
   \<and> (\<exists>img \<in> set example_no_words. [] \<in> set (final_captions img))
   \<and> list_all (\<lambda>img. final_captions img \<noteq> []) example_no_words \<and> (0::int) \<le> 4
   \<and> list_all (\<lambda>img. list_all (\<lambda>s. set (take (nat 4) s) \<subseteq> dom (make_wtoi [''a'']))
         (final_captions img)) example_no_words
   \<and> encode_captions example_no_words 4 (make_wtoi [''a''])
        = Inl (AssertionError ''error: some caption had no words?'')
   \<and> encode_captions example_final 4 (make_wtoi [''a'', ''UNK''])
        = Inr ([[1, 2, 0, 0], [2, 2, 2, 0], [1, 2, 0, 0]], [1, 3], [2, 3], [2, 3, 2])
   \<and> list_all (\<lambda>img. final_captions img \<noteq> [] \<and> [] \<notin> set (final_captions img)) example_final
   \<and> list_all (\<lambda>l. 0 < l) ([2, 3, 2] :: uint32 list)"
proof -
  have a1: "\<exists>img \<in> set example_no_captions. final_captions img = []"
    by (simp add: example_no_captions_def)
  have a2: "encode_captions example_no_captions 4 (make_wtoi [''a''])
        = Inl (AssertionError ''error: some image has no captions'')"
    by code_simp
  have b1: "\<exists>img \<in> set example_no_words. [] \<in> set (final_captions img)"
    by (simp add: example_no_words_def)
  have b2: "(\<forall>img \<in> set example_no_words. final_captions img \<noteq> []) \<and> (0::int) \<le> 4
   \<and> (\<forall>img \<in> set example_no_words. \<forall>s \<in> set (final_captions img).
         set (take (nat 4) s) \<subseteq> dom (make_wtoi [''a'']))"
    by (simp add: example_no_words_def make_wtoi_def)
  have c1: "encode_captions example_final 4 (make_wtoi [''a'', ''UNK''])
        = Inr ([[1, 2, 0, 0], [2, 2, 2, 0], [1, 2, 0, 0]], [1, 3], [2, 3], [2, 3, 2])"
    by code_simp
  note t1 = encode_captions_failures [of example_no_captions 4 "make_wtoi [''a'']"]
  note t2 = encode_captions_failures [of example_no_words 4 "make_wtoi [''a'']"]
  note t3 = encode_captions_failures [of example_final 4 "make_wtoi [''a'', ''UNK'']"]
  from t1 a1 have a3: "\<exists>e. encode_captions example_no_captions 4 (make_wtoi [''a'']) = Inl e"
    by blast
  from t2 b1 b2 have b3: "encode_captions example_no_words 4 (make_wtoi [''a''])
        = Inl (AssertionError ''error: some caption had no words?'')"
    by blast
  from t3 c1 have c2:
    "(\<forall>img \<in> set example_final. final_captions img \<noteq> [] \<and> [] \<notin> set (final_captions img))
     \<and> (\<forall>l \<in> set ([2, 3, 2] :: uint32 list). 0 < l)"
    by blast
  from b2 have b4: "list_all (\<lambda>img. final_captions img \<noteq> []) example_no_words"
    "(0::int) \<le> 4"
    "list_all (\<lambda>img. list_all (\<lambda>s. set (take (nat 4) s) \<subseteq> dom (make_wtoi [''a'']))
         (final_captions img)) example_no_words"
    by (simp_all add: list_all_iff)
  from c2 have c3:
    "list_all (\<lambda>img. final_captions img \<noteq> [] \<and> [] \<notin> set (final_captions img)) example_final"
    "list_all (\<lambda>l. 0 < l) ([2, 3, 2] :: uint32 list)"
    by (auto simp only: list_all_iff)
  from a1 a2 b1 b3 b4 c1 c3 show ?thesis by blast
qed

section \<open>Spans of a well-formed corpus\<close>

lemma encode_captions_well_formed:
  assumes "imgs \<noteq> []" and "\<forall>img \<in> set imgs. final_captions img \<noteq> []"
    and "\<forall>img \<in> set imgs. \<forall>s \<in> set (final_captions img).
           s \<noteq> [] \<and> set (take (nat ml) s) \<subseteq> dom wtoi"
    and "1 \<le> ml" and "ml < 2 ^ 32"
  shows "encode_captions imgs ml wtoi =
           Inr (map (encode_row ml wtoi) (all_captions imgs),
                map of_nat (span_starts 1 (caption_counts imgs)),
                map of_nat (span_ends 1 (caption_counts imgs)),
                map (row_length ml) (all_captions imgs))"
proof -
  have ml0: "0 \<le> ml" using assms(4) by simp
  have sub: "\<forall>img \<in> set imgs. \<forall>s \<in> set (final_captions img). set (take (nat ml) s) \<subseteq> dom wtoi"
    using assms(3) by blast
  have known: "\<forall>s \<in> set (all_captions imgs). \<forall>k < length s. int k < ml \<longrightarrow> wtoi (s ! k) \<noteq> None"
    using known_prefix [OF sub] by blast
  have nz: "\<forall>s \<in> set (all_captions imgs). row_length ml s \<noteq> 0"
  proof
    fix s assume "s \<in> set (all_captions imgs)"
    then have ne: "s \<noteq> []" using assms(3) by (auto simp: in_all_captions)
    have "nat ml < 2 ^ 32" using assms(5) ml0 by (simp add: nat_less_iff)
    then have "min (nat ml) (length s) < 2 ^ 32" by simp
    with ml0 have "unat (row_length ml s) = min (nat ml) (length s)"
      by (rule row_length_unat)
    moreover have "0 < nat ml" "0 < length s" using ne assms(4) by simp_all
    ultimately have "0 < unat (row_length ml s)" by simp
    then show "row_length ml s \<noteq> 0" by auto
  qed
  from assms(1,2) ml0 known nz show ?thesis by (rule encode_captions_returns)
qed

text \<open>
  Claim C2 asks only that every record has a caption. That is not enough for
  \<open>encode_captions\<close> to produce pointers: a record with the captions "a" and "" has
  captions, and the run ends in the assertion on the recorded lengths.
\<close>

theorem caption_without_words_counterexample:
  "length example_no_words = 1 \<and> length (final_captions (example_no_words ! 0)) = 2
   \<and> encode_captions example_no_words 4 (make_wtoi [''a''])
        = Inl (AssertionError ''error: some caption had no words?'')"
proof -
  have "length example_no_words = 1" "length (final_captions (example_no_words ! 0)) = 2"
    by (simp_all add: example_no_words_def)
  moreover have "encode_captions example_no_words 4 (make_wtoi [''a''])
        = Inl (AssertionError ''error: some caption had no words?'')"
    by code_simp
  ultimately show ?thesis by blast
qed

text \<open>
  Claim C2 as amended. For a corpus with at least one record in which every record has a
  caption, every caption has a token and the first \<open>max_length\<close> tokens of every caption
  are keys of \<open>wtoi\<close>, and for \<open>1 \<le> max_length < 2 ^ 32\<close>, \<open>encode_captions\<close>
  returns, and its pointers are 1-indexed, inclusive and contiguous:
  \<open>label_start_ix[0] = 1\<close>, \<open>label_start_ix[i] = label_end_ix[i-1] + 1\<close> for
  \<open>i > 0\<close>, and \<open>label_end_ix[i] - label_start_ix[i] + 1\<close> is the number of captions
  of record \<open>i\<close>, in the arithmetic of the uint32 cells. The label matrix has one row
  per caption, and the final value of the running counter minus 1 is the total number of
  captions \<open>M\<close>. When \<open>M\<close> is below \<open>2 ^ 32\<close> the same equations hold for the
  numbers stored, and the sizes of the spans add up to \<open>M\<close>.
\<close>

theorem encode_captions_spans:
  assumes "imgs \<noteq> []" and "\<forall>img \<in> set imgs. final_captions img \<noteq> []"
    and "\<forall>img \<in> set imgs. \<forall>s \<in> set (final_captions img).
           s \<noteq> [] \<and> set (take (nat ml) s) \<subseteq> dom wtoi"
    and "1 \<le> ml" and "ml < 2 ^ 32"
  shows "\<exists>L start_ix end_ix lens.
         encode_captions imgs ml wtoi = Inr (L, start_ix, end_ix, lens)
       \<and> length start_ix = length imgs \<and> length end_ix = length imgs
       \<and> start_ix ! 0 = 1
       \<and> (\<forall>i. 0 < i \<and> i < length imgs \<longrightarrow> start_ix ! i = end_ix ! (i - 1) + 1)
       \<and> (\<forall>i < length imgs.
            end_ix ! i - start_ix ! i + 1 = of_nat (length (final_captions (imgs ! i))))
       \<and> length L = sum_list (map (\<lambda>img. length (final_captions img)) imgs)
       \<and> (\<exists>st. encode_loop imgs ml wtoi = Inr st
              \<and> counter st - 1 = sum_list (map (\<lambda>img. length (final_captions img)) imgs))
       \<and> (sum_list (map (\<lambda>img. length (final_captions img)) imgs) < 2 ^ 32 \<longrightarrow>
            unat (start_ix ! 0) = 1
          \<and> (\<forall>i. 0 < i \<and> i < length imgs \<longrightarrow> unat (start_ix ! i) = unat (end_ix ! (i - 1)) + 1)
          \<and> (\<forall>i < length imgs.
               unat (end_ix ! i) - unat (start_ix ! i) + 1 = length (final_captions (imgs ! i)))
          \<and> (\<Sum>i = 0..<length imgs. unat (end_ix ! i) - unat (start_ix ! i) + 1)
               = sum_list (map (\<lambda>img. length (final_captions img)) imgs))"
proof -
  note ret = encode_captions_well_formed [OF assms]
  from spans_when_returned [OF ret] ret show ?thesis by blast
qed

theorem encode_captions_spans_witness:
  "example_final \<noteq> []
   \<and> list_all (\<lambda>img. final_captions img \<noteq> []) example_final
   \<and> list_all (\<lambda>img. list_all (\<lambda>s. s \<noteq> []
           \<and> set (take (nat 4) s) \<subseteq> dom (make_wtoi [''a'', ''UNK'']))
         (final_captions img)) example_final
   \<and> (1::int) \<le> 4 \<and> (4::int) < 2 ^ 32
   \<and> encode_captions example_final 4 (make_wtoi [''a'', ''UNK''])
       = Inr ([[1, 2, 0, 0], [2, 2, 2, 0], [1, 2, 0, 0]], [1, 3], [2, 3], [2, 3, 2])
   \<and> ([1, 3] :: uint32 list) ! 1 = [2, 3] ! 0 + 1
   \<and> ([2, 3] :: uint32 list) ! 0 - [1, 3] ! 0 + 1 = 2
   \<and> (\<exists>st. encode_loop example_final 4 (make_wtoi [''a'', ''UNK'']) = Inr st \<and> counter st - 1 = 3)
   \<and> (\<Sum>i = 0..<2. unat (([2, 3] :: uint32 list) ! i) - unat (([1, 3] :: uint32 list) ! i) + 1) = 3"
proof -
  let ?wtoi = "make_wtoi [''a'', ''UNK'']"
  have h1: "example_final \<noteq> []" by (simp add: example_final_def)
  have h2: "\<forall>img \<in> set example_final. final_captions img \<noteq> []"
    by (simp add: example_final_def)
  have h3: "\<forall>img \<in> set example_final. \<forall>s \<in> set (final_captions img).
         s \<noteq> [] \<and> set (take (nat 4) s) \<subseteq> dom ?wtoi"
    by (simp add: example_final_def make_wtoi_def)
  have h4: "(1::int) \<le> 4" by simp
  have h5: "(4::int) < 2 ^ 32" by simp
  have g2: "list_all (\<lambda>img. final_captions img \<noteq> []) example_final"
    using h2 by (simp add: list_all_iff)
  have g3: "list_all (\<lambda>img. list_all (\<lambda>s. s \<noteq> []
           \<and> set (take (nat 4) s) \<subseteq> dom ?wtoi) (final_captions img)) example_final"
    using h3 by (simp add: list_all_iff)
  have ev: "encode_captions example_final 4 ?wtoi
     = Inr ([[1, 2, 0, 0], [2, 2, 2, 0], [1, 2, 0, 0]], [1, 3], [2, 3], [2, 3, 2])"
    by code_simp
  have M: "sum_list (map (\<lambda>img. length (final_captions img)) example_final) = 3"
    "length example_final = 2"
    by (simp_all add: example_final_def)
  have small: "(3::nat) < 2 ^ 32" by simp
  note t = encode_captions_spans [OF h1 h2 h3 h4 h5, unfolded M ev]
  from t small have
    C: "\<exists>st. encode_loop example_final 4 ?wtoi = Inr st \<and> counter st - 1 = 3"
    by blast
  from t small have
    D: "(\<Sum>i = 0..<2. unat (([2, 3] :: uint32 list) ! i) - unat (([1, 3] :: uint32 list) ! i) + 1) = 3"
    by blast
  have "([1, 3] :: uint32 list) ! 1 = [2, 3] ! 0 + 1"
    "([2, 3] :: uint32 list) ! 0 - [1, 3] ! 0 + 1 = 2"
    by simp_all
  with h1 g2 g3 h4 h5 ev C D show ?thesis by blast
qed

section \<open>The translation tables\<close>

lemma wtoi_fold_Some:
  assumes "fold (\<lambda>(i, w) m. m(w \<mapsto> i + 1)) (enumerate n vocab) m0 w = Some ix"
  shows "m0 w = Some ix \<or> (w \<in> set vocab \<and> n + 1 \<le> ix \<and> ix \<le> n + length vocab)"
  using assms
proof (induction vocab arbitrary: n m0)
  case Nil
  then show ?case by simp
next
  case (Cons v vocab)
  have "fold (\<lambda>(i, w) m. m(w \<mapsto> i + 1)) (enumerate n (v # vocab)) m0
          = fold (\<lambda>(i, w) m. m(w \<mapsto> i + 1)) (enumerate (Suc n) vocab) (m0(v \<mapsto> n + 1))"
    by simp
  with Cons.prems have
    "fold (\<lambda>(i, w) m. m(w \<mapsto> i + 1)) (enumerate (Suc n) vocab) (m0(v \<mapsto> n + 1)) w = Some ix"
    by (simp only:)
  from Cons.IH [OF this] show ?case by (auto split: if_splits)
qed

lemma wtoi_fold_dom:
  "dom (fold (\<lambda>(i, w) m. m(w \<mapsto> i + 1)) (enumerate n vocab) m0) = dom m0 \<union> set vocab"
  by (induction vocab arbitrary: n m0) auto

lemma dom_make_wtoi: "dom (make_wtoi vocab) = set vocab"
  unfolding make_wtoi_def wtoi_fold_dom by simp

lemma make_wtoi_range:
  "make_wtoi vocab w = Some ix \<Longrightarrow> 1 \<le> ix \<and> ix \<le> length vocab"
  using wtoi_fold_Some [of 0 vocab Map.empty w ix] unfolding make_wtoi_def by simp

lemma final_captions_assign_splits:
  "map final_captions (assign_splits imgs nval ntest) = map final_captions imgs"
  by (rule nth_equalityI) (simp_all add: assign_splits_def nth_enumerate_eq)

lemma all_captions_assign_splits:
  "all_captions (assign_splits imgs nval ntest) = all_captions imgs"
  by (simp add: all_captions_def final_captions_assign_splits)

text \<open>
  Claim C9. With the table \<open>wtoi\<close> built from the vocabulary that \<open>build_vocab\<close> returns
  for a corpus, every token of every final caption of that corpus is the sentinel or a
  word whose count exceeds the threshold, and it is a key of the table; the sentinel is in
  the vocabulary whenever a final caption holds it; and \<open>encode_captions\<close>, run on the
  records after \<open>assign_splits\<close>, never raises KeyError.
\<close>

theorem final_tokens_in_wtoi:
  assumes "iteration_order iteritems"
    and "build_vocab iteritems imgs t = Inr (vocab, imgs')"
  shows "(\<forall>img \<in> set imgs'. \<forall>s \<in> set (final_captions img). \<forall>w \<in> set s.
            (w = ''UNK'' \<or> t < corpus_count imgs w) \<and> w \<in> dom (make_wtoi vocab))
       \<and> ((\<exists>img \<in> set imgs'. \<exists>s \<in> set (final_captions img). ''UNK'' \<in> set s)
            \<longrightarrow> ''UNK'' \<in> set vocab)
       \<and> (\<forall>w. encode_captions (assign_splits imgs' nval ntest) ml (make_wtoi vocab)
                 \<noteq> Inl (KeyError w))"
proof -
  let ?kept = "map fst (filter (\<lambda>(w, n). t < n) (iteritems (count_words imgs)))"
  let ?unk = "if \<exists>w \<in> set (all_tokens imgs). corpus_count imgs w \<le> t then [''UNK''] else []"
  from assms have ne: "all_tokens imgs \<noteq> []"
    by (auto simp: build_vocab_result)
  from assms ne have vocab: "vocab = ?kept @ ?unk"
    and imgs': "imgs' = map (\<lambda>img. img\<lparr>final_captions :=
                      map (map (substitute imgs t)) (processed_tokens img)\<rparr>) imgs"
    by (simp_all add: build_vocab_result)
  have kept: "set ?kept = {w \<in> set (all_tokens imgs). t < corpus_count imgs w}"
    by (rule kept_words(1) [OF assms(1)])
  have tok: "(w = ''UNK'' \<or> t < corpus_count imgs w) \<and> w \<in> set vocab"
    if "img \<in> set imgs'" "s \<in> set (final_captions img)" "w \<in> set s" for img s w
  proof -
    from that obtain img0 cap v where
      v: "img0 \<in> set imgs" "cap \<in> set (processed_tokens img0)" "v \<in> set cap"
         "w = substitute imgs t v"
      by (auto simp: imgs')
    then have mem: "v \<in> set (all_tokens imgs)" by (auto simp: all_tokens_def)
    show ?thesis
    proof (cases "t < corpus_count imgs v")
      case True
      then have "w = v" using v by (simp add: substitute_def)
      with True mem kept show ?thesis by (auto simp: vocab)
    next
      case False
      then have "w = ''UNK''" using v by (simp add: substitute_def)
      moreover from False mem have "\<exists>w \<in> set (all_tokens imgs). corpus_count imgs w \<le> t"
        by force
      ultimately show ?thesis by (simp add: vocab)
    qed
  qed
  have a: "\<forall>img \<in> set imgs'. \<forall>s \<in> set (final_captions img). \<forall>w \<in> set s.
            (w = ''UNK'' \<or> t < corpus_count imgs w) \<and> w \<in> dom (make_wtoi vocab)"
    using tok by (simp add: dom_make_wtoi)
  have b: "(\<exists>img \<in> set imgs'. \<exists>s \<in> set (final_captions img). ''UNK'' \<in> set s)
            \<longrightarrow> ''UNK'' \<in> set vocab"
    using tok by blast
  have c: "encode_captions (assign_splits imgs' nval ntest) ml (make_wtoi vocab)
                 \<noteq> Inl (KeyError w)" for w
  proof
    assume "encode_captions (assign_splits imgs' nval ntest) ml (make_wtoi vocab)
              = Inl (KeyError w)"
    from encode_captions_Inl [OF this] obtain s k where
      "s \<in> set (all_captions imgs')" "k < length s" "make_wtoi vocab (s ! k) = None"
      by (auto simp: all_captions_assign_splits)
    moreover from this(1,2) have "\<exists>img \<in> set imgs'. s \<in> set (final_captions img)"
      "s ! k \<in> set s"
      by (simp_all add: in_all_captions)
    with a have "s ! k \<in> dom (make_wtoi vocab)" by blast
    ultimately show False by auto
  qed
  from a b c show ?thesis by blast
qed

theorem final_tokens_in_wtoi_witness:
  "iteration_order id
   \<and> build_vocab id example_tokens 1 = Inr ([''a'', ''UNK''], example_final)
   \<and> list_all (\<lambda>img. list_all (list_all (\<lambda>w.
           (w = ''UNK'' \<or> 1 < corpus_count example_tokens w)
           \<and> w \<in> dom (make_wtoi [''a'', ''UNK'']))) (final_captions img)) example_final
   \<and> (\<exists>img \<in> set example_final. \<exists>s \<in> set (final_captions img). ''UNK'' \<in> set s)
   \<and> ''UNK'' \<in> set [''a'', ''UNK'']
   \<and> (\<forall>w. encode_captions (assign_splits example_final 1 0) 4 (make_wtoi [''a'', ''UNK''])
             \<noteq> Inl (KeyError w))"
proof -
  have h1: "iteration_order id" by (simp add: iteration_order_def)
  have h2: "build_vocab id example_tokens 1 = Inr ([''a'', ''UNK''], example_final)"
    by (simp add: build_vocab_def example_tokens_def example_final_def count_words_def
        count_word_def get_def)
  have h3: "\<exists>img \<in> set example_final. \<exists>s \<in> set (final_captions img). ''UNK'' \<in> set s"
    by (simp add: example_final_def)
  note t = final_tokens_in_wtoi [OF h1 h2, of 1 0 4]
  from t have a: "\<forall>img \<in> set example_final. \<forall>s \<in> set (final_captions img). \<forall>w \<in> set s.
         (w = ''UNK'' \<or> 1 < corpus_count example_tokens w)
         \<and> w \<in> dom (make_wtoi [''a'', ''UNK''])"
    by blast
  then have a': "list_all (\<lambda>img. list_all (list_all (\<lambda>w.
           (w = ''UNK'' \<or> 1 < corpus_count example_tokens w)
           \<and> w \<in> dom (make_wtoi [''a'', ''UNK'']))) (final_captions img)) example_final"
    unfolding list_all_iff by blast
  from t h3 have b: "''UNK'' \<in> set [''a'', ''UNK'']" by blast
  from t have c: "\<forall>w. encode_captions (assign_splits example_final 1 0) 4
            (make_wtoi [''a'', ''UNK'']) \<noteq> Inl (KeyError w)"
    by blast
  from h1 h2 h3 a' b c show ?thesis by blast
qed

section \<open>Zero padding\<close>

lemma word_id_nonzero:
  assumes "make_wtoi vocab w = Some ix" and "length vocab < 2 ^ 32"
  shows "word_id (make_wtoi vocab) w \<noteq> 0"
proof -
  from make_wtoi_range [OF assms(1)] assms(2) have "1 \<le> ix" "ix < 2 ^ 32" by simp_all
  then have "unat (of_nat ix :: uint32) = ix" by (simp add: unat_of_nat_small)
  with \<open>1 \<le> ix\<close> have "(of_nat ix :: uint32) \<noteq> 0" by auto
  then show ?thesis using assms(1) by (simp add: word_id_def)
qed

lemma filter_nonzero_row:
  assumes "\<forall>x \<in> set xs. x \<noteq> (0 :: uint32)"
  shows "filter (\<lambda>x. x \<noteq> 0) (xs @ replicate n 0) = xs"
  using assms by (simp add: filter_id_conv)

text \<open>
  Claim C10. In a run of \<open>encode_captions\<close> that returns, with the table built from a
  vocabulary of fewer than \<open>2 ^ 32\<close> words as \<open>main\<close> builds it: every id of the table is
  at least 1; the row of a caption with \<open>c\<close> tokens has its first
  \<open>min(max_length, c)\<close> columns different from zero and all later columns zero, so the
  number of its nonzero entries is \<open>min(max_length, c)\<close>, which is the length recorded
  for the row (as a number when \<open>max_length\<close> is below \<open>2 ^ 32\<close>).
\<close>

theorem label_length_counts_nonzero:
  assumes "encode_captions imgs ml (make_wtoi vocab) = Inr (L, start_ix, end_ix, lens)"
    and "length vocab < 2 ^ 32"
  shows "(\<forall>w ix. make_wtoi vocab w = Some ix \<longrightarrow> 1 \<le> ix)
       \<and> length L = length (all_captions imgs) \<and> length lens = length (all_captions imgs)
       \<and> (\<forall>r < length L.
            (\<forall>k < min (nat ml) (length (all_captions imgs ! r)). L ! r ! k \<noteq> 0)
          \<and> (\<forall>k. min (nat ml) (length (all_captions imgs ! r)) \<le> k \<and> k < length (L ! r)
                \<longrightarrow> L ! r ! k = 0)
          \<and> length (filter (\<lambda>x. x \<noteq> 0) (L ! r)) = min (nat ml) (length (all_captions imgs ! r))
          \<and> lens ! r = of_nat (length (filter (\<lambda>x. x \<noteq> 0) (L ! r)))
          \<and> (ml < 2 ^ 32 \<longrightarrow> unat (lens ! r) = length (filter (\<lambda>x. x \<noteq> 0) (L ! r))))"
proof -
  let ?wtoi = "make_wtoi vocab"
  note cf = encode_captions_Inr [OF assms(1)]
  have ml0: "0 \<le> ml" using cf by simp
  have L: "L = map (encode_row ml ?wtoi) (all_captions imgs)"
    and lens: "lens = map (row_length ml) (all_captions imgs)"
    using cf by simp_all
  have a: "\<forall>w ix. ?wtoi w = Some ix \<longrightarrow> 1 \<le> ix"
    using make_wtoi_range by blast
  have row: "(\<forall>k < min (nat ml) (length (all_captions imgs ! r)). L ! r ! k \<noteq> 0)
          \<and> (\<forall>k. min (nat ml) (length (all_captions imgs ! r)) \<le> k \<and> k < length (L ! r)
                \<longrightarrow> L ! r ! k = 0)
          \<and> length (filter (\<lambda>x. x \<noteq> 0) (L ! r)) = min (nat ml) (length (all_captions imgs ! r))
          \<and> lens ! r = of_nat (length (filter (\<lambda>x. x \<noteq> 0) (L ! r)))
          \<and> (ml < 2 ^ 32 \<longrightarrow> unat (lens ! r) = length (filter (\<lambda>x. x \<noteq> 0) (L ! r)))"
    if "r < length L" for r
  proof -
    from that have r: "r < length (all_captions imgs)" by (simp add: L)
    let ?s = "all_captions imgs ! r"
    let ?ids = "map (word_id ?wtoi) (take (nat ml) ?s)"
    have mem: "?s \<in> set (all_captions imgs)" using r by simp
    have Lr: "L ! r = ?ids @ replicate (nat ml - length ?s) 0"
      using r by (simp add: L encode_row_def)
    have len_ids: "length ?ids = min (nat ml) (length ?s)" by (simp add: min.commute)
    have nz: "\<forall>x \<in> set ?ids. x \<noteq> 0"
    proof
      fix x assume "x \<in> set ?ids"
      then obtain k where k: "k < length ?ids" "x = ?ids ! k"
        by (auto simp: in_set_conv_nth)
      then have k1: "k < nat ml" and k2: "k < length ?s" by simp_all
      then have "int k < ml" by simp
      with cf mem k2 have "?wtoi (?s ! k) \<noteq> None" by blast
      then obtain ix where "?wtoi (?s ! k) = Some ix" by auto
      then have "word_id ?wtoi (?s ! k) \<noteq> 0" using assms(2) by (rule word_id_nonzero)
      then show "x \<noteq> 0" using k k1 k2 by simp
    qed
    have b: "\<forall>k < min (nat ml) (length ?s). L ! r ! k \<noteq> 0"
    proof (intro allI impI)
      fix k assume "k < min (nat ml) (length ?s)"
      then have "k < length ?ids" by (simp add: min.commute)
      then have "L ! r ! k = ?ids ! k" "?ids ! k \<in> set ?ids"
        unfolding Lr by (simp_all only: nth_append nth_mem if_True)
      with nz show "L ! r ! k \<noteq> 0" by auto
    qed
    have c: "\<forall>k. min (nat ml) (length ?s) \<le> k \<and> k < length (L ! r) \<longrightarrow> L ! r ! k = 0"
    proof (intro allI impI)
      fix k assume k: "min (nat ml) (length ?s) \<le> k \<and> k < length (L ! r)"
      then have "\<not> k < length ?ids" "k - length ?ids < nat ml - length ?s"
        unfolding Lr by (auto simp: min.commute)
      then show "L ! r ! k = 0" unfolding Lr by (simp only: nth_append if_False nth_replicate)
    qed
    have d: "length (filter (\<lambda>x. x \<noteq> 0) (L ! r)) = min (nat ml) (length ?s)"
      unfolding Lr filter_nonzero_row [OF nz] by (rule len_ids)
    have e: "lens ! r = of_nat (length (filter (\<lambda>x. x \<noteq> 0) (L ! r)))"
      using r ml0 by (simp add: lens d row_length_of_nat)
    have f: "unat (lens ! r) = length (filter (\<lambda>x. x \<noteq> 0) (L ! r))" if "ml < 2 ^ 32"
    proof -
      have "nat ml < 2 ^ 32" using that ml0 by (simp add: nat_less_iff)
      then have "min (nat ml) (length ?s) < 2 ^ 32" by simp
      then show ?thesis using r ml0 by (simp add: lens d row_length_unat)
    qed
    from b c d e f show ?thesis by blast
  qed
  have "length L = length (all_captions imgs)" "length lens = length (all_captions imgs)"
    by (simp_all add: L lens)
  with a row show ?thesis by blast
qed

theorem label_length_counts_nonzero_witness:
  "encode_captions example_final 4 (make_wtoi [''a'', ''UNK''])
     = Inr ([[1, 2, 0, 0], [2, 2, 2, 0], [1, 2, 0, 0]], [1, 3], [2, 3], [2, 3, 2])
   \<and> length [''a'', ''UNK''] < 2 ^ 32 \<and> (4::int) < 2 ^ 32
   \<and> make_wtoi [''a'', ''UNK''] ''UNK'' = Some 2
   \<and> unat (([2, 3, 2] :: uint32 list) ! 1)
        = length (filter (\<lambda>x. x \<noteq> 0) (([[1, 2, 0, 0], [2, 2, 2, 0], [1, 2, 0, 0]] :: uint32 list list) ! 1))
   \<and> length (filter (\<lambda>x. x \<noteq> 0) (([[1, 2, 0, 0], [2, 2, 2, 0], [1, 2, 0, 0]] :: uint32 list list) ! 1))
        = min (nat 4) (length (all_captions example_final ! 1))"
proof -
  have h1: "encode_captions example_final 4 (make_wtoi [''a'', ''UNK''])
     = Inr ([[1, 2, 0, 0], [2, 2, 2, 0], [1, 2, 0, 0]], [1, 3], [2, 3], [2, 3, 2])"
    by code_simp
  have h2: "length [''a'', ''UNK''] < 2 ^ 32" by simp
  have h3: "(4::int) < 2 ^ 32" by simp
  have h4: "make_wtoi [''a'', ''UNK''] ''UNK'' = Some 2" by (simp add: make_wtoi_def)
  have r: "(1::nat) < length ([[1, 2, 0, 0], [2, 2, 2, 0], [1, 2, 0, 0]] :: uint32 list list)"
    by simp
  from label_length_counts_nonzero [OF h1 h2] r h3 have
    "unat (([2, 3, 2] :: uint32 list) ! 1)
        = length (filter (\<lambda>x. x \<noteq> 0) (([[1, 2, 0, 0], [2, 2, 2, 0], [1, 2, 0, 0]] :: uint32 list list) ! 1))"
    "length (filter (\<lambda>x. x \<noteq> 0) (([[1, 2, 0, 0], [2, 2, 2, 0], [1, 2, 0, 0]] :: uint32 list list) ! 1))
        = min (nat 4) (length (all_captions example_final ! 1))"
    by blast+
  with h1 h2 h3 h4 show ?thesis by blast
qed

section \<open>Splits\<close>

lemma length_assign_splits: "length (assign_splits imgs nval ntest) = length imgs"
  by (simp add: assign_splits_def)

lemma nth_assign_splits:
  "i < length imgs \<Longrightarrow>
     assign_splits imgs nval ntest ! i = (imgs ! i)\<lparr>split := split_at nval ntest i\<rparr>"
  by (simp add: assign_splits_def nth_enumerate_eq split_at_def)

lemma split_assign_splits:
  "map split (assign_splits imgs nval ntest) = map (split_at nval ntest) [0..<length imgs]"
  by (rule nth_equalityI) (simp_all add: length_assign_splits nth_assign_splits)

lemma map_split_at_partition:
  assumes "0 \<le> nval" and "0 \<le> ntest" and "nval + ntest \<le> int n"
  shows "map (split_at nval ntest) [0..<n]
           = replicate (nat nval) ''val'' @ replicate (nat ntest) ''test''
               @ replicate (n - nat nval - nat ntest) ''train''"
proof (rule nth_equalityI)
  show "length (map (split_at nval ntest) [0..<n])
          = length (replicate (nat nval) ''val'' @ replicate (nat ntest) ''test''
               @ replicate (n - nat nval - nat ntest) ''train'')"
    using assms by simp
next
  fix i assume "i < length (map (split_at nval ntest) [0..<n])"
  then have i: "i < n" by simp
  consider "int i < nval" | "nval \<le> int i" "int i < nval + ntest" | "nval + ntest \<le> int i"
    by linarith
  then show "map (split_at nval ntest) [0..<n] ! i
          = (replicate (nat nval) ''val'' @ replicate (nat ntest) ''test''
               @ replicate (n - nat nval - nat ntest) ''train'') ! i"
  proof cases
    case 1
    then have "i < nat nval" by simp
    with 1 i show ?thesis by (simp add: split_at_def nth_append)
  next
    case 2
    then have "\<not> i < nat nval" "i - nat nval < nat ntest" using assms by linarith+
    with 2 i show ?thesis by (simp add: split_at_def nth_append)
  next
    case 3
    then have "\<not> int i < nval" "\<not> int i < nval + ntest" "\<not> i < nat nval"
      "\<not> i - nat nval < nat ntest" "i - nat nval - nat ntest < n - nat nval - nat ntest"
      using assms i by linarith+
    with i show ?thesis by (simp add: split_at_def nth_append)
  qed
qed

lemma count_split:
  "length (filter (\<lambda>img. split img = l) imgs) = length (filter (\<lambda>x. x = l) (map split imgs))"
  by (simp add: comp_def)

text \<open>
  Claim C6. For \<open>num_val \<ge> 0\<close>, \<open>num_test \<ge> 0\<close> and
  \<open>num_val + num_test \<le> N\<close>, \<open>assign_splits\<close> keeps the \<open>N\<close> records in order and
  changes nothing but their split; the splits are \<open>num_val\<close> times "val", then
  \<open>num_test\<close> times "test", then "train" for all remaining records, so the three
  partitions have \<open>num_val\<close>, \<open>num_test\<close> and \<open>N - num_val - num_test\<close> records, which
  add up to \<open>N\<close>.
\<close>

theorem assign_splits_partition:
  assumes "0 \<le> nval" and "0 \<le> ntest" and "nval + ntest \<le> int (length imgs)"
  shows "length (assign_splits imgs nval ntest) = length imgs
       \<and> (\<forall>i < length imgs. \<exists>l. assign_splits imgs nval ntest ! i = (imgs ! i)\<lparr>split := l\<rparr>)
       \<and> map split (assign_splits imgs nval ntest)
           = replicate (nat nval) ''val'' @ replicate (nat ntest) ''test''
               @ replicate (length imgs - nat nval - nat ntest) ''train''
       \<and> length (filter (\<lambda>img. split img = ''val'') (assign_splits imgs nval ntest)) = nat nval
       \<and> length (filter (\<lambda>img. split img = ''test'') (assign_splits imgs nval ntest)) = nat ntest
       \<and> length (filter (\<lambda>img. split img = ''train'') (assign_splits imgs nval ntest))
           = length imgs - nat nval - nat ntest
       \<and> nat nval + nat ntest + (length imgs - nat nval - nat ntest) = length imgs"
proof -
  have a: "length (assign_splits imgs nval ntest) = length imgs"
    by (rule length_assign_splits)
  have b: "\<forall>i < length imgs. \<exists>l. assign_splits imgs nval ntest ! i = (imgs ! i)\<lparr>split := l\<rparr>"
    using nth_assign_splits by blast
  have c: "map split (assign_splits imgs nval ntest)
           = replicate (nat nval) ''val'' @ replicate (nat ntest) ''test''
               @ replicate (length imgs - nat nval - nat ntest) ''train''"
    unfolding split_assign_splits using assms by (rule map_split_at_partition)
  have d: "length (filter (\<lambda>img. split img = ''val'') (assign_splits imgs nval ntest)) = nat nval"
    unfolding count_split c by simp
  have e: "length (filter (\<lambda>img. split img = ''test'') (assign_splits imgs nval ntest)) = nat ntest"
    unfolding count_split c by simp
  have f: "length (filter (\<lambda>img. split img = ''train'') (assign_splits imgs nval ntest))
           = length imgs - nat nval - nat ntest"
    unfolding count_split c by simp
  have g: "nat nval + nat ntest + (length imgs - nat nval - nat ntest) = length imgs"
    using assms by linarith
  from a b c d e f g show ?thesis by blast
qed

theorem assign_splits_partition_witness:
  "(0::int) \<le> 1 \<and> (0::int) \<le> 0 \<and> (1::int) + 0 \<le> int (length example_final)
   \<and> map split (assign_splits example_final 1 0) = [''val'', ''train'']
   \<and> length (filter (\<lambda>img. split img = ''val'') (assign_splits example_final 1 0)) = 1
   \<and> length (filter (\<lambda>img. split img = ''train'') (assign_splits example_final 1 0)) = 1"
proof -
  have h1: "(0::int) \<le> 1" by simp
  have h2: "(0::int) \<le> 0" by simp
  have h3: "(1::int) + 0 \<le> int (length example_final)" by (simp add: example_final_def)
  have n: "length example_final = 2" by (simp add: example_final_def)
  note t = assign_splits_partition [OF h1 h2 h3, unfolded n]
  from t have "map split (assign_splits example_final 1 0)
           = replicate (nat 1) ''val'' @ replicate (nat 0) ''test''
               @ replicate (2 - nat 1 - nat 0) ''train''"
    by blast
  then have a: "map split (assign_splits example_final 1 0) = [''val'', ''train'']"
    by (simp add: numeral_2_eq_2)
  from t have b: "length (filter (\<lambda>img. split img = ''val'') (assign_splits example_final 1 0)) = 1"
    "length (filter (\<lambda>img. split img = ''train'') (assign_splits example_final 1 0)) = 1"
    by simp_all
  from h1 h2 h3 a b show ?thesis by blast
qed

section \<open>Split sizes beyond the corpus\<close>

text \<open>
  Claim C7 says that split sizes beyond the corpus are reported as a configuration error.
  The script has no such check: with one record, \<open>num_val = 1\<close> and
  \<open>num_test = 1\<close> the run produces its output, with the only record in "val" and no
  record in "train".
\<close>

theorem split_sizes_unchecked_counterexample:
  "int (length example_input) < num_val example_params + num_test example_params
   \<and> main id id example_input example_params
     = Inr \<lparr>ix_to_word = [(1, ''a''), (2, ''cat'')], images = [''val''],
            labels = [[1, 2, 0, 0]], out_label_start_ix = [1], out_label_end_ix = [1],
            out_label_length = [2]\<rparr>"
proof -
  have "int (length example_input) < num_val example_params + num_test example_params"
    by (simp add: example_input_def example_params_def)
  moreover have "main id id example_input example_params
     = Inr \<lparr>ix_to_word = [(1, ''a''), (2, ''cat'')], images = [''val''],
            labels = [[1, 2, 0, 0]], out_label_start_ix = [1], out_label_end_ix = [1],
            out_label_length = [2]\<rparr>"
    by code_simp
  ultimately show ?thesis by blast
qed

lemma map_split_at_oversized:
  assumes "int n < nval + ntest"
  shows "map (split_at nval ntest) [0..<n]
           = replicate (min (nat nval) n) ''val'' @ replicate (n - nat nval) ''test''"
proof (rule nth_equalityI)
  show "length (map (split_at nval ntest) [0..<n])
          = length (replicate (min (nat nval) n) ''val'' @ replicate (n - nat nval) ''test'')"
    by simp
next
  fix i assume "i < length (map (split_at nval ntest) [0..<n])"
  then have i: "i < n" by simp
  then have t: "int i < nval + ntest" using assms by linarith
  show "map (split_at nval ntest) [0..<n] ! i
          = (replicate (min (nat nval) n) ''val'' @ replicate (n - nat nval) ''test'') ! i"
  proof (cases "int i < nval")
    case True
    then have "i < min (nat nval) n" using i by simp
    with True i show ?thesis by (simp add: split_at_def nth_append)
  next
    case False
    then have "\<not> i < min (nat nval) n" "i - min (nat nval) n < n - nat nval"
      using i by linarith+
    with False t i show ?thesis by (simp add: split_at_def nth_append)
  qed
qed

lemma assign_splits_cong:
  assumes "\<forall>i < length imgs. split_at a b i = split_at c d i"
  shows "assign_splits imgs a b = assign_splits imgs c d"
  using assms
  by (intro nth_equalityI) (simp_all add: length_assign_splits nth_assign_splits)

lemma assign_splits_clipped:
  assumes "int (length imgs) < nval + ntest"
  shows "length (assign_splits imgs nval ntest) = length imgs
       \<and> map split (assign_splits imgs nval ntest)
           = replicate (min (nat nval) (length imgs)) ''val''
               @ replicate (length imgs - nat nval) ''test''
       \<and> length (filter (\<lambda>img. split img = ''train'') (assign_splits imgs nval ntest)) = 0
       \<and> assign_splits imgs nval ntest
           = assign_splits imgs (int (min (nat nval) (length imgs)))
               (int (length imgs - nat nval))"
proof -
  let ?c = "min (nat nval) (length imgs)"
  have a: "length (assign_splits imgs nval ntest) = length imgs"
    by (rule length_assign_splits)
  have b: "map split (assign_splits imgs nval ntest)
           = replicate ?c ''val'' @ replicate (length imgs - nat nval) ''test''"
    unfolding split_assign_splits using assms by (rule map_split_at_oversized)
  have c: "length (filter (\<lambda>img. split img = ''train'') (assign_splits imgs nval ntest)) = 0"
    unfolding count_split b by simp
  have "split_at nval ntest i = split_at (int ?c) (int (length imgs - nat nval)) i"
    if "i < length imgs" for i
  proof -
    from that assms have "int i < nval + ntest"
      "int i < int ?c + int (length imgs - nat nval)" by linarith+
    moreover have "int i < nval \<longleftrightarrow> int i < int ?c" using that by linarith
    ultimately show ?thesis by (simp only: split_at_def if_True)
  qed
  then have d: "assign_splits imgs nval ntest
           = assign_splits imgs (int ?c) (int (length imgs - nat nval))"
    by (intro assign_splits_cong) blast
  from a b c d show ?thesis by blast
qed

lemma for_each_length:
  assumes "\<And>x s s'. body x s = Inr s' \<Longrightarrow> length s' = Suc (length s)"
    and "for_each body xs s = Inr r"
  shows "length r = length s + length xs"
  using assms(2)
proof (induction xs arbitrary: s)
  case Nil
  then show ?case by simp
next
  case (Cons x xs)
  from Cons.prems obtain s' where s': "body x s = Inr s'" "for_each body xs s' = Inr r"
    by (auto split: sum.splits)
  from Cons.IH [OF s'(2)] assms(1) [OF s'(1)] show ?case by simp
qed

lemma prepro_captions_length:
  assumes "prepro_captions imgs = Inr imgs1"
  shows "length imgs1 = length imgs"
proof -
  have "length imgs1 = length ([] :: img list) + length imgs"
    by (rule for_each_length [OF _ assms [unfolded prepro_captions_def]])
      (auto split: sum.splits)
  then show ?thesis by simp
qed

lemma build_vocab_length:
  assumes "build_vocab iteritems imgs t = Inr (vocab, imgs2)"
  shows "length imgs2 = length imgs"
  using assms by (auto simp: build_vocab_def Let_def split: if_splits)

lemma main_num_val_test:
  assumes "\<And>imgs. length imgs = length input \<Longrightarrow>
             assign_splits imgs (num_val p) (num_test p) = assign_splits imgs a b"
    and "length (shuffle input) = length input"
  shows "main shuffle iteritems input p = main shuffle iteritems input (p\<lparr>num_val := a, num_test := b\<rparr>)"
proof (cases "prepro_captions (shuffle input)")
  case (Inl e)
  then show ?thesis by (simp add: main_def)
next
  case (Inr imgs1)
  note p1 = this
  show ?thesis
  proof (cases "build_vocab iteritems imgs1 (word_count_threshold p)")
    case (Inl e)
    with p1 show ?thesis by (simp add: main_def)
  next
    case (Inr r)
    obtain vocab imgs2 where r: "r = (vocab, imgs2)" by (cases r)
    have "length imgs2 = length input"
      using build_vocab_length [OF Inr [unfolded r]] prepro_captions_length [OF p1] assms(2)
      by simp
    from assms(1) [OF this] have
      "assign_splits imgs2 (num_val p) (num_test p) = assign_splits imgs2 a b" .
    with p1 Inr r show ?thesis
      by (simp add: main_def Let_def cong: sum.case_cong)
  qed
qed

lemma main_images:
  assumes "main shuffle iteritems input p = Inr r"
  shows "\<exists>imgs. length imgs = length (shuffle input)
           \<and> images r = map split (assign_splits imgs (num_val p) (num_test p))"
proof -
  from assms obtain imgs1 where p1: "prepro_captions (shuffle input) = Inr imgs1"
    by (auto simp: main_def split: sum.splits)
  from assms p1 obtain vocab imgs2 where
    p2: "build_vocab iteritems imgs1 (word_count_threshold p) = Inr (vocab, imgs2)"
    by (auto simp: main_def split: sum.splits)
  from assms p1 p2 have "images r = map split (assign_splits imgs2 (num_val p) (num_test p))"
    by (auto simp: main_def Let_def split: sum.splits)
  moreover have "length imgs2 = length (shuffle input)"
    using build_vocab_length [OF p2] prepro_captions_length [OF p1] by simp
  ultimately show ?thesis by blast
qed

text \<open>
  Claim C7 as amended. When \<open>num_val + num_test\<close> exceeds the number \<open>N\<close> of records,
  nothing is reported: with \<open>c = min(max(num_val, 0), N)\<close>, the run gives the result it
  gives for \<open>num_val = c\<close> and \<open>num_test = N - c\<close>; \<open>assign_splits\<close> labels the first
  \<open>c\<close> records "val" and every remaining record "test", and no record "train".
\<close>

theorem main_oversized_splits:
  assumes "int (length input) < num_val p + num_test p"
    and "length (shuffle input) = length input"
  shows "main shuffle iteritems input p
           = main shuffle iteritems input
               (p\<lparr>num_val := int (min (nat (num_val p)) (length input)),
                  num_test := int (length input - nat (num_val p))\<rparr>)
       \<and> (\<forall>r. main shuffle iteritems input p = Inr r \<longrightarrow>
             images r = replicate (min (nat (num_val p)) (length input)) ''val''
                          @ replicate (length input - nat (num_val p)) ''test'')
       \<and> (\<forall>imgs. length imgs = length input \<longrightarrow>
             map split (assign_splits imgs (num_val p) (num_test p))
               = replicate (min (nat (num_val p)) (length input)) ''val''
                   @ replicate (length input - nat (num_val p)) ''test''
           \<and> length (filter (\<lambda>img. split img = ''train'')
                 (assign_splits imgs (num_val p) (num_test p))) = 0)"
proof -
  let ?N = "length input"
  let ?c = "min (nat (num_val p)) ?N"
  have lab: "map split (assign_splits imgs (num_val p) (num_test p))
               = replicate ?c ''val'' @ replicate (?N - nat (num_val p)) ''test''
           \<and> length (filter (\<lambda>img. split img = ''train'')
                 (assign_splits imgs (num_val p) (num_test p))) = 0
           \<and> assign_splits imgs (num_val p) (num_test p)
               = assign_splits imgs (int ?c) (int (?N - nat (num_val p)))"
    if len: "length imgs = ?N" for imgs
  proof -
    have "int (length imgs) < num_val p + num_test p" using assms(1) len by simp
    from assign_splits_clipped [OF this, unfolded len] show ?thesis by blast
  qed
  have a: "main shuffle iteritems input p
           = main shuffle iteritems input
               (p\<lparr>num_val := int ?c, num_test := int (?N - nat (num_val p))\<rparr>)"
    by (rule main_num_val_test [where shuffle = shuffle and input = input and p = p,
          OF _ assms(2)]) (use lab in blast)
  have b: "images r = replicate ?c ''val'' @ replicate (?N - nat (num_val p)) ''test''"
    if "main shuffle iteritems input p = Inr r" for r
  proof -
    from main_images [OF that] assms(2) obtain imgs where
      len: "length imgs = ?N"
      and im: "images r = map split (assign_splits imgs (num_val p) (num_test p))"
      by auto
    show ?thesis unfolding im using lab [OF len] by blast
  qed
  from a b lab show ?thesis by blast
qed

theorem main_oversized_splits_witness:
  "int (length example_input) < num_val example_params + num_test example_params
   \<and> length (id example_input) = length example_input
   \<and> main id id example_input example_params
       = main id id example_input (example_params\<lparr>num_val := 1, num_test := 0\<rparr>)
   \<and> (\<exists>r. main id id example_input example_params = Inr r \<and> images r = [''val''])"
proof -
  have h1: "int (length example_input) < num_val example_params + num_test example_params"
    by (simp add: example_input_def example_params_def)
  have h2: "length (id example_input) = length example_input" by simp
  have n: "length example_input = 1" "num_val example_params = 1"
    by (simp_all add: example_input_def example_params_def)
  note t = main_oversized_splits [where input = example_input and p = example_params
      and shuffle = id and iteritems = id, OF h1 h2]
  from t have "main id id example_input example_params
           = main id id example_input
               (example_params\<lparr>num_val := int (min (nat (num_val example_params)) (length example_input)),
                  num_test := int (length example_input - nat (num_val example_params))\<rparr>)"
    by blast
  then have a: "main id id example_input example_params
       = main id id example_input (example_params\<lparr>num_val := 1, num_test := 0\<rparr>)"
    by (simp add: n)
  define r where "r = \<lparr>ix_to_word = [(1, ''a''), (2, ''cat'')], images = [''val''],
            labels = [[1, 2, 0, 0]], out_label_start_ix = [1], out_label_end_ix = [1],
            out_label_length = [2 :: uint32]\<rparr>"
  have r: "main id id example_input example_params = Inr r"
    unfolding r_def by code_simp
  with t have "images r = replicate (min (nat (num_val example_params)) (length example_input)) ''val''
                          @ replicate (length example_input - nat (num_val example_params)) ''test''"
    by blast
  then have "images r = [''val'']" by (simp add: n)
  with r have b: "\<exists>r. main id id example_input example_params = Inr r \<and> images r = [''val'']"
    by blast
  from h1 h2 a b show ?thesis by blast
qed

section \<open>Two runs\<close>












end
